theory Spec2Isabelle
  imports Complex_Main "HOL-Library.Multiset" "HOL-Library.List_Lexorder" "HOL-Library.Char_ord"
    "HOL-Library.AList"
begin

section \<open>JavaScript numbers\<close>

text \<open>
  A JavaScript number is an IEEE-754 double: a finite value, one of the two infinities,
  or NaN. Every finite double is a real number, and comparison, \<open>Math.abs\<close>, unary
  minus and \<open>Math.round\<close> are exact on doubles, so they are defined here on the value.
  The two zeros are identified: the program never tells them apart (\<open>===\<close>, \<open><\<close>,
  \<open>toPrecision\<close> agree on them, and the only division is guarded by \<open>b === 0\<close>).
  The operations that round (\<open>+ - * /\<close> and the \<open>Math\<close> functions) belong to the
  JavaScript engine and not to this program; they are the fields of an \<open>engine\<close> record
  that every function below takes as its first argument. The clock is there too:
  \<open>performance_now E n\<close> is what the \<open>n\<close>-th call of \<open>performance.now()\<close> of
  a run returns (calls counted from 0).
\<close>

datatype number = Fin real | PInf | NInf | NaN

definition isFiniteNumber :: "number \<Rightarrow> bool" where
  "isFiniteNumber x = (case x of Fin _ \<Rightarrow> True | _ \<Rightarrow> False)"

text \<open>\<open>a < b\<close>, \<open>a > b\<close>, \<open>a === b\<close>, \<open>a <= b\<close>, \<open>a >= b\<close> of JavaScript: false as soon
  as one side is NaN.\<close>

definition num_lt :: "number \<Rightarrow> number \<Rightarrow> bool" where
  "num_lt a b = (case (a, b) of
       (Fin x, Fin y) \<Rightarrow> x < y
     | (Fin _, PInf) \<Rightarrow> True
     | (NInf, Fin _) \<Rightarrow> True
     | (NInf, PInf) \<Rightarrow> True
     | _ \<Rightarrow> False)"

definition num_gt :: "number \<Rightarrow> number \<Rightarrow> bool" where
  "num_gt a b = num_lt b a"

definition num_eq :: "number \<Rightarrow> number \<Rightarrow> bool" where
  "num_eq a b = (a \<noteq> NaN \<and> a = b)"

definition num_le :: "number \<Rightarrow> number \<Rightarrow> bool" where
  "num_le a b = (num_lt a b \<or> num_eq a b)"

definition num_ge :: "number \<Rightarrow> number \<Rightarrow> bool" where
  "num_ge a b = num_le b a"

definition Math_abs :: "number \<Rightarrow> number" where
  "Math_abs x = (case x of Fin r \<Rightarrow> Fin \<bar>r\<bar> | PInf \<Rightarrow> PInf | NInf \<Rightarrow> PInf | NaN \<Rightarrow> NaN)"

definition num_neg :: "number \<Rightarrow> number" where
  "num_neg x = (case x of Fin r \<Rightarrow> Fin (- r) | PInf \<Rightarrow> NInf | NInf \<Rightarrow> PInf | NaN \<Rightarrow> NaN)"

text \<open>\<open>Math.round\<close>: the nearest integer, a tie going up.\<close>

definition Math_round :: "number \<Rightarrow> number" where
  "Math_round x = (case x of Fin r \<Rightarrow> Fin (of_int \<lfloor>r + 1 / 2\<rfloor>) | y \<Rightarrow> y)"

text \<open>The double literals of the source, with the exact value of the double each one
  denotes (\<open>1e-9\<close>, \<open>1e300\<close> and \<open>1e-12\<close> are not themselves doubles).\<close>

definition lit_1e_9 :: number where
  "lit_1e_9 = Fin (4835703278458517 / 2 ^ 82)"

definition lit_1e300 :: number where
  "lit_1e300 = Fin (1681218273811815 * 2 ^ 946)"

definition lit_1e_12 :: number where
  "lit_1e_12 = Fin (4951760157141521 / 2 ^ 92)"

record engine =
  f_add :: "number \<Rightarrow> number \<Rightarrow> number"
  f_sub :: "number \<Rightarrow> number \<Rightarrow> number"
  f_mul :: "number \<Rightarrow> number \<Rightarrow> number"
  f_div :: "number \<Rightarrow> number \<Rightarrow> number"
  Math_sin :: "number \<Rightarrow> number"
  Math_cos :: "number \<Rightarrow> number"
  Math_tan :: "number \<Rightarrow> number"
  Math_exp :: "number \<Rightarrow> number"
  Math_log :: "number \<Rightarrow> number"
  Math_sqrt :: "number \<Rightarrow> number"
  Math_pow :: "number \<Rightarrow> number \<Rightarrow> number"
  toPrecision17 :: "real \<Rightarrow> string"
  performance_now :: "nat \<Rightarrow> number"

section \<open>Utilities\<close>

text \<open>\<open>key_repr\<close>: the string \<open>'nan'\<close> for a non-finite number, otherwise
  \<open>Number(x).toPrecision(17)\<close>.\<close>

definition key_repr :: "engine \<Rightarrow> number \<Rightarrow> string" where
  "key_repr E x = (case x of Fin r \<Rightarrow> toPrecision17 E r | _ \<Rightarrow> ''nan'')"

text \<open>\<open>safePow\<close>. No operation of the body throws on numbers, so the \<open>try\<close> has no
  other branch.\<close>

definition safePow :: "engine \<Rightarrow> number \<Rightarrow> number \<Rightarrow> number" where
  "safePow E a b =
     (if \<not> isFiniteNumber a \<or> \<not> isFiniteNumber b then NaN
      else if num_lt a (Fin 0) then
        (let br = Math_round b in
         if num_gt (Math_abs (f_sub E b br)) lit_1e_9 then NaN
         else (let v = Math_pow E a br in
               if \<not> isFiniteNumber v \<or> num_gt (Math_abs v) lit_1e300 then NaN else v))
      else (let v = Math_pow E a b in
            if \<not> isFiniteNumber v \<or> num_gt (Math_abs v) lit_1e300 then NaN else v))"

text \<open>\<open>safeEvalFunc\<close> and \<open>safeEvalBin\<close>: the functions passed in return numbers and
  do not throw, so \<open>typeof v === 'object'\<close> is false and the \<open>catch\<close> is not taken.\<close>

definition safeEvalFunc :: "(number \<Rightarrow> number) \<Rightarrow> number \<Rightarrow> number" where
  "safeEvalFunc f x = (let v = f x in if \<not> isFiniteNumber v then NaN else v)"

definition safeEvalBin :: "(number \<Rightarrow> number \<Rightarrow> number) \<Rightarrow> number \<Rightarrow> number \<Rightarrow> number" where
  "safeEvalBin op a b = (let v = op a b in if \<not> isFiniteNumber v then NaN else v)"

section \<open>Strings\<close>

text \<open>A JavaScript string is modelled by a \<open>string\<close> of HOL, a list of 8-bit characters:
  the two agree on ASCII texts, which are what the program builds. Strings are compared as
  JavaScript compares them, unit by unit (the order of \<open>List_Lexorder\<close> over \<open>Char_ord\<close>).\<close>

definition startsWith :: "string \<Rightarrow> string \<Rightarrow> bool" where
  "startsWith s p = (take (length p) s = p)"

definition endsWith :: "string \<Rightarrow> string \<Rightarrow> bool" where
  "endsWith s p = (length p \<le> length s \<and> drop (length s - length p) s = p)"

text \<open>White space of \<open>String.prototype.trim\<close>, within ASCII: tab, line feed, vertical
  tab, form feed, carriage return, space.\<close>

definition is_ws :: "char \<Rightarrow> bool" where
  "is_ws c = (c \<in> set [CHR 0x09, CHR 0x0A, CHR 0x0B, CHR 0x0C, CHR 0x0D, CHR '' ''])"

definition trim :: "string \<Rightarrow> string" where
  "trim s = rev (dropWhile is_ws (rev (dropWhile is_ws s)))"

text \<open>\<open>s.slice(a, -1)\<close>: from index \<open>a\<close> up to, not including, the last character.\<close>

definition slice_to_last :: "nat \<Rightarrow> string \<Rightarrow> string" where
  "slice_to_last a s = drop a (take (length s - 1) s)"

text \<open>\<open>is_direct_application\<close>. An empty string is falsy, both as \<open>expr\<close> and as
  \<open>inner\<close>.\<close>

definition is_direct_application :: "string \<Rightarrow> string \<Rightarrow> bool" where
  "is_direct_application expr funcName =
     (if expr = [] then False
      else
        (let s0 = trim expr;
             s1 = (if startsWith s0 ''('' \<and> endsWith s0 '')'' then
                     (let inner = trim (slice_to_last 1 s0) in if inner \<noteq> [] then inner else s0)
                   else s0);
             s2 = (if startsWith s1 ''-('' \<and> endsWith s1 '')'' then
                     (let inner = trim (slice_to_last 2 s1) in if inner \<noteq> [] then inner else s1)
                   else s1)
         in startsWith s2 (funcName @ ''('') \<and> endsWith s2 '')''))"


text \<open>\<open>n|0\<close> is the conversion to a signed 32-bit integer; \<open>String\<close> of an integer is
  its decimal literal.\<close>

definition to_int32 :: "int \<Rightarrow> int" where
  "to_int32 n = (n + 2 ^ 31) mod 2 ^ 32 - 2 ^ 31"

fun decimal_nat :: "nat \<Rightarrow> string" where
  "decimal_nat n =
     (if n < 10 then [''0123456789'' ! n]
      else decimal_nat (n div 10) @ [''0123456789'' ! (n mod 10)])"

declare decimal_nat.simps [simp del]

definition String_int :: "int \<Rightarrow> string" where
  "String_int n = (if n < 0 then ''-'' @ decimal_nat (nat (- n)) else decimal_nat (nat n))"

section \<open>The binary heap\<close>

text \<open>Memo entries are \<open>{v, expr}\<close>, heap entries \<open>{err, v, expr}\<close>.\<close>

record item =
  val :: number
  expr :: string

record cand = item +
  err :: number

text \<open>\<open>_siftUp\<close> and \<open>_siftDown\<close> of \<open>BinaryHeap\<close>, on the array \<open>data\<close>; \<open>cmp\<close> is
  the comparator given to the constructor. \<open>_siftUp\<close> is called with the index of the
  last element and \<open>_siftDown\<close> with index 0 of a non-empty array, so every index read is
  inside the array.\<close>

function siftUp :: "('a \<Rightarrow> 'a \<Rightarrow> int) \<Rightarrow> 'a list \<Rightarrow> nat \<Rightarrow> 'a list" where
  "siftUp cmp a i =
     (if 0 < i then
        (let p = (i - 1) div 2 in
         if 0 < cmp (a ! i) (a ! p) then siftUp cmp (a[i := a ! p, p := a ! i]) p else a)
      else a)"
  by pat_completeness auto
termination
  by (relation "measure (\<lambda>(cmp, a, i). i)") auto

declare siftUp.simps [simp del]

function siftDown :: "('a \<Rightarrow> 'a \<Rightarrow> int) \<Rightarrow> 'a list \<Rightarrow> nat \<Rightarrow> 'a list" where
  "siftDown cmp a i =
     (let n = length a; l = 2 * i + 1; r = 2 * i + 2;
          largest1 = (if l < n \<and> 0 < cmp (a ! l) (a ! i) then l else i);
          largest = (if r < n \<and> 0 < cmp (a ! r) (a ! largest1) then r else largest1)
      in if largest \<noteq> i then siftDown cmp (a[i := a ! largest, largest := a ! i]) largest
         else a)"
  by pat_completeness auto
termination
  by (relation "measure (\<lambda>(cmp, a, i). length a - i)") (auto simp: Let_def split: if_splits)

declare siftDown.simps [simp del]

definition heap_push :: "('a \<Rightarrow> 'a \<Rightarrow> int) \<Rightarrow> 'a \<Rightarrow> 'a list \<Rightarrow> 'a list" where
  "heap_push cmp x data = siftUp cmp (data @ [x]) (length data)"

text \<open>\<open>peek\<close> of an empty heap is \<open>undefined\<close>: \<open>None\<close>.\<close>

definition heap_peek :: "'a list \<Rightarrow> 'a option" where
  "heap_peek data = (case data of [] \<Rightarrow> None | x # _ \<Rightarrow> Some x)"

text \<open>\<open>replace\<close> returns the old top and the new array.\<close>

definition heap_replace :: "('a \<Rightarrow> 'a \<Rightarrow> int) \<Rightarrow> 'a \<Rightarrow> 'a list \<Rightarrow> 'a option \<times> 'a list" where
  "heap_replace cmp x data =
     (case data of [] \<Rightarrow> (None, [x]) | t # rest \<Rightarrow> (Some t, siftDown cmp (x # rest) 0))"

text \<open>The comparator of \<open>bestHeap\<close>: by error, the worst on top.\<close>

definition cmp_err :: "cand \<Rightarrow> cand \<Rightarrow> int" where
  "cmp_err a b = (if num_lt (err a) (err b) then - 1 else if num_gt (err a) (err b) then 1 else 0)"

text \<open>\<open>Array.prototype.sort\<close> with a comparator is a stable sort (ECMAScript 2019):
  \<open>a\<close> goes behind \<open>b\<close> when \<open>cmp(a, b) > 0\<close>. The engine's algorithm is not part of the
  program; a stable insertion sort stands for it.\<close>

fun insert_cmp :: "('a \<Rightarrow> 'a \<Rightarrow> number) \<Rightarrow> 'a \<Rightarrow> 'a list \<Rightarrow> 'a list" where
  "insert_cmp cmp x [] = [x]"
| "insert_cmp cmp x (y # ys) =
     (if num_gt (cmp x y) (Fin 0) then y # insert_cmp cmp x ys else x # y # ys)"

definition sort_cmp :: "('a \<Rightarrow> 'a \<Rightarrow> number) \<Rightarrow> 'a list \<Rightarrow> 'a list" where
  "sort_cmp cmp xs = foldr (insert_cmp cmp) xs []"

section \<open>The enumerator\<close>

text \<open>The configuration object \<open>cfg\<close>. \<open>constants\<close> is \<open>cfg.consts\<close> as
  \<open>Object.keys\<close> lists it, each name with \<open>Number(constants[name])\<close>.\<close>

record config =
  N :: int
  target :: number
  constants :: "(string \<times> number) list"
  use_sin :: bool
  use_cos :: bool
  use_tan :: bool
  use_exp :: bool
  use_ln :: bool
  use_sqrt :: bool
  use_neg :: bool
  use_pow :: bool
  keep_side :: string
  max_cost :: int
  keep_top :: int
  max_seconds :: number
  epsilon :: number

text \<open>\<open>Array.from({length: N}, (_, i) => i + 1)\<close>.\<close>

definition numbers :: "config \<Rightarrow> int list" where
  "numbers cfg = [1..N cfg]"

text \<open>\<open>unaryFuncs\<close> and \<open>binaryOps\<close>, in the order of their keys.\<close>

definition unaryFuncs :: "engine \<Rightarrow> config \<Rightarrow> (string \<times> (number \<Rightarrow> number)) list" where
  "unaryFuncs E cfg =
     (if use_sin cfg then [(''sin'', Math_sin E)] else []) @
     (if use_cos cfg then [(''cos'', Math_cos E)] else []) @
     (if use_tan cfg then [(''tan'', Math_tan E)] else []) @
     (if use_exp cfg then [(''exp'', Math_exp E)] else []) @
     (if use_ln cfg then [(''ln'', \<lambda>x. if num_gt x (Fin 0) then Math_log E x else NaN)] else []) @
     (if use_sqrt cfg then [(''sqrt'', \<lambda>x. if num_ge x (Fin 0) then Math_sqrt E x else NaN)] else []) @
     (if use_neg cfg then [(''-'', \<lambda>x. num_neg x)] else [])"

definition binaryOps :: "engine \<Rightarrow> config \<Rightarrow> (string \<times> (number \<Rightarrow> number \<Rightarrow> number)) list" where
  "binaryOps E cfg =
     [(''+'', \<lambda>a b. f_add E a b),
      (''-'', \<lambda>a b. f_sub E a b),
      (''*'', \<lambda>a b. f_mul E a b),
      (''/'', \<lambda>a b. if num_eq b (Fin 0) then NaN else f_div E a b)] @
     (if use_pow cfg then [(''^'', safePow E)] else [])"

text \<open>\<open>cfg.epsilon || 1e-12\<close> and \<open>cfg.keep_side || 'both'\<close>: 0, NaN and the empty
  string are falsy.\<close>

definition epsilon_of :: "config \<Rightarrow> number" where
  "epsilon_of cfg = (if epsilon cfg = Fin 0 \<or> epsilon cfg = NaN then lit_1e_12 else epsilon cfg)"

definition keepSide :: "config \<Rightarrow> string" where
  "keepSide cfg = (if keep_side cfg = [] then ''both'' else keep_side cfg)"

text \<open>The mutable variables of \<open>generateEnumerations\<close>: the array of \<open>bestHeap\<close>,
  \<open>savedValues\<close>, \<open>exprCountTotal\<close>, \<open>stopped\<close>, \<open>memo\<close> (a \<open>Map\<close>: its entries in
  insertion order, \<open>memo.set\<close> being \<open>AList.update\<close>), and the number of clock readings
  taken so far.\<close>

record state =
  heap :: "cand list"
  savedValues :: "string set"
  exprCountTotal :: nat
  stopped :: bool
  memo :: "(nat \<times> item list) list"
  clock_reads :: nat

text \<open>What the code throws: \<open>Error('Timeout')\<close>, the TypeError of reading a field of
  \<open>undefined\<close>, the RangeError of a call stack that is exhausted. A function that can
  throw returns the exception or its value, and the state in both cases.\<close>

datatype exn = Timeout | TypeError | RangeError

type_synonym 'a result = "(exn + 'a) \<times> state"

definition nowSec :: "engine \<Rightarrow> nat \<Rightarrow> number" where
  "nowSec E n = f_div E (performance_now E n) (Fin 1000)"

text \<open>\<open>start\<close> is the first reading of the clock.\<close>

definition start :: "engine \<Rightarrow> number" where
  "start E = nowSec E 0"

definition timeCheck :: "engine \<Rightarrow> config \<Rightarrow> state \<Rightarrow> unit result" where
  "timeCheck E cfg st =
     (let now = nowSec E (clock_reads st);
          st1 = st\<lparr>clock_reads := Suc (clock_reads st)\<rparr>
      in if num_gt (f_sub E now (start E)) (max_seconds cfg)
         then (Inl Timeout, st1\<lparr>stopped := True\<rparr>)
         else (Inr (), st1))"

text \<open>\<open>considerValue\<close>. The text is the same whether \<open>exprBuilder\<close> is a string or a
  function returning it, so the text itself is passed.\<close>

definition considerValue :: "engine \<Rightarrow> config \<Rightarrow> number \<Rightarrow> string \<Rightarrow> state \<Rightarrow> unit result" where
  "considerValue E cfg x text st =
     (if \<not> isFiniteNumber x then (Inr (), st)
      else if keepSide cfg = ''greater'' \<and> \<not> num_gt x (f_add E (target cfg) (epsilon_of cfg))
        then (Inr (), st)
      else if keepSide cfg = ''less'' \<and> \<not> num_lt x (f_sub E (target cfg) (epsilon_of cfg))
        then (Inr (), st)
      else
        (let st1 = st\<lparr>exprCountTotal := Suc (exprCountTotal st)\<rparr>;
             e = Math_abs (f_sub E (target cfg) x);
             k = key_repr E x;
             new = \<lparr>val = x, expr = text, err = e\<rparr>
         in if k \<in> savedValues st1 then (Inr (), st1)
            else if int (length (heap st1)) < keep_top cfg then
              (Inr (), st1\<lparr>heap := heap_push cmp_err new (heap st1),
                           savedValues := insert k (savedValues st1)\<rparr>)
            else
              (case heap_peek (heap st1) of
                 None \<Rightarrow> (Inl TypeError, st1)
               | Some worst \<Rightarrow>
                   if num_lt e (err worst) then
                     (case heap_replace cmp_err new (heap st1) of
                        (None, h) \<Rightarrow> (Inl TypeError, st1\<lparr>heap := h\<rparr>)
                      | (Some popped, h) \<Rightarrow>
                          (Inr (), st1\<lparr>heap := h,
                                       savedValues :=
                                         insert k (savedValues st1 - {key_repr E (val popped)})\<rparr>))
                   else (Inr (), st1))))"

text \<open>The two statements \<open>considerValue(v, expr); results.push({v, expr})\<close> that end
  every loop body, for the entries a body produces, in order. An exception leaves the
  loop; \<open>results\<close> is then lost and the state is the one at the throw.\<close>

fun feed :: "engine \<Rightarrow> config \<Rightarrow> item list \<Rightarrow> item list \<Rightarrow> state \<Rightarrow> item list result" where
  "feed E cfg [] results st = (Inr results, st)"
| "feed E cfg (x # xs) results st =
     (case considerValue E cfg (val x) (expr x) st of
        (Inl e, st1) \<Rightarrow> (Inl e, st1)
      | (Inr _, st1) \<Rightarrow> feed E cfg xs (results @ [x]) st1)"

text \<open>The loops of cost 1, over \<open>numbers\<close> and over the constants: \<open>timeCheck\<close>, then
  the entry.\<close>

fun atoms_loop :: "engine \<Rightarrow> config \<Rightarrow> item list \<Rightarrow> item list \<Rightarrow> state \<Rightarrow> item list result" where
  "atoms_loop E cfg [] results st = (Inr results, st)"
| "atoms_loop E cfg (x # xs) results st =
     (case timeCheck E cfg st of
        (Inl e, st1) \<Rightarrow> (Inl e, st1)
      | (Inr _, st1) \<Rightarrow>
          (case feed E cfg [x] results st1 of
             (Inl e, st2) \<Rightarrow> (Inl e, st2)
           | (Inr results1, st2) \<Rightarrow> atoms_loop E cfg xs results1 st2))"

definition number_atom :: "int \<Rightarrow> item" where
  "number_atom n = \<lparr>val = Fin (of_int n), expr = String_int (to_int32 n)\<rparr>"

definition constant_atom :: "string \<times> number \<Rightarrow> item" where
  "constant_atom c = \<lparr>val = snd c, expr = fst c\<rparr>"

text \<open>The body of the loop over \<open>Object.keys(unaryFuncs)\<close> for one entry of
  \<open>prev\<close>: nothing when the pruning rule skips the function, else the new entry.\<close>

definition unary_item :: "item \<Rightarrow> string \<times> (number \<Rightarrow> number) \<Rightarrow> item list" where
  "unary_item it uf =
     (let fname = fst uf; f = snd uf in
      if fname = ''ln'' \<and> is_direct_application (expr it) ''exp'' then []
      else if fname = ''exp'' \<and> is_direct_application (expr it) ''ln'' then []
      else
        [\<lparr>val = safeEvalFunc f (val it),
          expr = (if fname = ''-'' then ''-('' @ expr it @ '')''
                  else fname @ ''('' @ expr it @ '')'')\<rparr>])"

fun unary_loop :: "engine \<Rightarrow> config \<Rightarrow> item list \<Rightarrow> item list \<Rightarrow> state \<Rightarrow> item list result" where
  "unary_loop E cfg [] results st = (Inr results, st)"
| "unary_loop E cfg (it # prev) results st =
     (case timeCheck E cfg st of
        (Inl e, st1) \<Rightarrow> (Inl e, st1)
      | (Inr _, st1) \<Rightarrow>
          if \<not> isFiniteNumber (val it) then unary_loop E cfg prev results st1
          else
            (case feed E cfg (concat (map (unary_item it) (unaryFuncs E cfg))) results st1 of
               (Inl e, st2) \<Rightarrow> (Inl e, st2)
             | (Inr results1, st2) \<Rightarrow> unary_loop E cfg prev results1 st2))"

text \<open>The body of the loop over \<open>Object.keys(binaryOps)\<close> for one pair \<open>L\<close>, \<open>R\<close>:
  identity elimination, the canonical order of a commutative operator, then \<open>L op R\<close>
  and, for the other operators, \<open>R op L\<close>.\<close>

definition binary_items ::
  "engine \<Rightarrow> config \<Rightarrow> item \<Rightarrow> item \<Rightarrow> string \<times> (number \<Rightarrow> number \<Rightarrow> number) \<Rightarrow> item list" where
  "binary_items E cfg L R bo =
     (let opname = fst bo; op = snd bo in
      if opname = ''+'' \<and> num_le (Math_abs (val R)) (epsilon_of cfg) then []
      else if opname = ''-'' \<and> num_le (Math_abs (val R)) (epsilon_of cfg) then []
      else if opname = ''*'' \<and> num_le (Math_abs (f_sub E (val R) (Fin 1))) (epsilon_of cfg) then []
      else if opname = ''/'' \<and> num_le (Math_abs (f_sub E (val R) (Fin 1))) (epsilon_of cfg) then []
      else
        (let isCommutative = (opname = ''+'' \<or> opname = ''*'');
             doFirst = (\<not> (isCommutative \<and>
                            (num_gt (val L) (val R) \<or>
                             (num_eq (val L) (val R) \<and> expr R < expr L))))
         in (if doFirst then
               [\<lparr>val = safeEvalBin op (val L) (val R),
                 expr = ''('' @ expr L @ '' '' @ opname @ '' '' @ expr R @ '')''\<rparr>]
             else []) @
            (if \<not> isCommutative then
               [\<lparr>val = safeEvalBin op (val R) (val L),
                 expr = ''('' @ expr R @ '' '' @ opname @ '' '' @ expr L @ '')''\<rparr>]
             else [])))"

fun right_loop ::
  "engine \<Rightarrow> config \<Rightarrow> item \<Rightarrow> item list \<Rightarrow> item list \<Rightarrow> state \<Rightarrow> item list result" where
  "right_loop E cfg L [] results st = (Inr results, st)"
| "right_loop E cfg L (R # rightArr) results st =
     (case timeCheck E cfg st of
        (Inl e, st1) \<Rightarrow> (Inl e, st1)
      | (Inr _, st1) \<Rightarrow>
          if \<not> isFiniteNumber (val L) \<or> \<not> isFiniteNumber (val R)
          then right_loop E cfg L rightArr results st1
          else
            (case feed E cfg (concat (map (binary_items E cfg L R) (binaryOps E cfg))) results st1 of
               (Inl e, st2) \<Rightarrow> (Inl e, st2)
             | (Inr results1, st2) \<Rightarrow> right_loop E cfg L rightArr results1 st2))"

fun left_loop ::
  "engine \<Rightarrow> config \<Rightarrow> item list \<Rightarrow> item list \<Rightarrow> item list \<Rightarrow> state \<Rightarrow> item list result" where
  "left_loop E cfg [] rightArr results st = (Inr results, st)"
| "left_loop E cfg (L # leftArr) rightArr results st =
     (case timeCheck E cfg st of
        (Inl e, st1) \<Rightarrow> (Inl e, st1)
      | (Inr _, st1) \<Rightarrow>
          (case right_loop E cfg L rightArr results st1 of
             (Inl e, st2) \<Rightarrow> (Inl e, st2)
           | (Inr results1, st2) \<Rightarrow> left_loop E cfg leftArr rightArr results1 st2))"

text \<open>\<open>enumerateCost\<close>, and its loop over \<open>a_cost\<close> as \<open>binary_splits\<close>, which ends with
  \<open>memo.set(cost, results)\<close>. The driver calls \<open>enumerateCost\<close> with costs from 1 on, and
  the calls inside keep the cost at 1 or more; at cost 0 the source would recurse without
  end, which the engine answers with a RangeError.\<close>

function enumerateCost :: "engine \<Rightarrow> config \<Rightarrow> nat \<Rightarrow> state \<Rightarrow> item list result"
  and binary_splits :: "engine \<Rightarrow> config \<Rightarrow> nat \<Rightarrow> nat \<Rightarrow> item list \<Rightarrow> state \<Rightarrow> item list result"
  where
  "enumerateCost E cfg cost st =
     (if stopped st then (Inr [], st)
      else
        (case map_of (memo st) cost of
           Some r \<Rightarrow> (Inr r, st)
         | None \<Rightarrow>
             (case timeCheck E cfg st of
                (Inl e, st1) \<Rightarrow> (Inl e, st1)
              | (Inr _, st1) \<Rightarrow>
                  if cost = 1 then
                    (case atoms_loop E cfg (map number_atom (numbers cfg)) [] st1 of
                       (Inl e, st2) \<Rightarrow> (Inl e, st2)
                     | (Inr results1, st2) \<Rightarrow>
                         (case atoms_loop E cfg (map constant_atom (constants cfg)) results1 st2 of
                            (Inl e, st3) \<Rightarrow> (Inl e, st3)
                          | (Inr results2, st3) \<Rightarrow>
                              (Inr results2, st3\<lparr>memo := AList.update cost results2 (memo st3)\<rparr>)))
                  else if cost = 0 then (Inl RangeError, st1)
                  else
                    (case enumerateCost E cfg (cost - 1) st1 of
                       (Inl e, st2) \<Rightarrow> (Inl e, st2)
                     | (Inr prev, st2) \<Rightarrow>
                         (case unary_loop E cfg prev [] st2 of
                            (Inl e, st3) \<Rightarrow> (Inl e, st3)
                          | (Inr results1, st3) \<Rightarrow> binary_splits E cfg cost 1 results1 st3)))))"
| "binary_splits E cfg cost a_cost results st =
     (if a_cost + 2 \<le> cost then
        (case enumerateCost E cfg a_cost st of
           (Inl e, st1) \<Rightarrow> (Inl e, st1)
         | (Inr leftArr, st1) \<Rightarrow>
             (case enumerateCost E cfg (cost - 1 - a_cost) st1 of
                (Inl e, st2) \<Rightarrow> (Inl e, st2)
              | (Inr rightArr, st2) \<Rightarrow>
                  (case left_loop E cfg leftArr rightArr results st2 of
                     (Inl e, st3) \<Rightarrow> (Inl e, st3)
                   | (Inr results1, st3) \<Rightarrow> binary_splits E cfg cost (a_cost + 1) results1 st3)))
      else (Inr results, st\<lparr>memo := AList.update cost results (memo st)\<rparr>))"
  by pat_completeness auto
termination
  by (relation "inv_image (less_than <*lex*> less_than)
        (\<lambda>x. case x of
           Inl (E, cfg, cost, st) \<Rightarrow> (2 * cost + 1, 0)
         | Inr (E, cfg, cost, a_cost, results, st) \<Rightarrow> (2 * cost, cost - a_cost))")
     auto

declare enumerateCost.simps [simp del]
declare binary_splits.simps [simp del]

text \<open>The driver. \<open>level_step\<close> is the body of the loop over \<open>cost\<close>: when a progress
  callback is given, its argument reads the clock once more. \<open>run_levels E cfg onProgress k\<close>
  is the loop from cost 1 to cost \<open>k\<close>: the state it returns is the state at the end
  of level \<open>k\<close>.\<close>

definition level_step :: "engine \<Rightarrow> config \<Rightarrow> bool \<Rightarrow> nat \<Rightarrow> state \<Rightarrow> unit result" where
  "level_step E cfg onProgress cost st =
     (case timeCheck E cfg st of
        (Inl e, st1) \<Rightarrow> (Inl e, st1)
      | (Inr _, st1) \<Rightarrow>
          (case enumerateCost E cfg cost st1 of
             (Inl e, st2) \<Rightarrow> (Inl e, st2)
           | (Inr _, st2) \<Rightarrow>
               (Inr (), if onProgress then st2\<lparr>clock_reads := Suc (clock_reads st2)\<rparr> else st2)))"

primrec run_levels :: "engine \<Rightarrow> config \<Rightarrow> bool \<Rightarrow> nat \<Rightarrow> state \<Rightarrow> unit result" where
  "run_levels E cfg onProgress 0 st = (Inr (), st)"
| "run_levels E cfg onProgress (Suc k) st =
     (case run_levels E cfg onProgress k st of
        (Inl e, st1) \<Rightarrow> (Inl e, st1)
      | (Inr _, st1) \<Rightarrow> level_step E cfg onProgress (Suc k) st1)"

text \<open>The state when the loop starts: \<open>start\<close> has been read from the clock.\<close>

definition init_state :: state where
  "init_state = \<lparr>heap = [], savedValues = {}, exprCountTotal = 0, stopped = False,
                 memo = [], clock_reads = 1\<rparr>"

record run_output =
  results :: "cand list"
  expr_count_total :: nat
  max_level :: int

text \<open>The read-out: a copy of the heap's array, sorted with the comparator
  \<open>a.err - b.err\<close>.\<close>

definition read_out :: "engine \<Rightarrow> cand list \<Rightarrow> cand list" where
  "read_out E data = sort_cmp (\<lambda>a b. f_sub E (err a) (err b)) data"

text \<open>\<open>generateEnumerations\<close>: the \<open>catch\<close> swallows every exception of the loop (one
  that is not the timeout is written to the console), and the function returns in each
  case.\<close>

definition final_state :: "engine \<Rightarrow> config \<Rightarrow> bool \<Rightarrow> state" where
  "final_state E cfg onProgress = snd (run_levels E cfg onProgress (nat (max_cost cfg)) init_state)"

definition generateEnumerations :: "engine \<Rightarrow> config \<Rightarrow> bool \<Rightarrow> run_output" where
  "generateEnumerations E cfg onProgress =
     (let st = final_state E cfg onProgress in
      \<lparr>results = read_out E (heap st),
       expr_count_total = exprCountTotal st,
       max_level = min (max_cost cfg) (int (length (memo st)))\<rparr>)"

section \<open>An engine without rounding\<close>

text \<open>
  \<open>exact_engine\<close> computes \<open>+ - * /\<close> and the \<open>Math\<close> functions exactly on finite
  arguments: it agrees with every IEEE-754 engine wherever the exact result is a double.
  On infinite arguments the four operations follow IEEE-754; the \<open>Math\<close> functions, which
  the program only calls on finite arguments, are NaN there. Its \<open>toPrecision17\<close> is the
  decimal text of \<open>\<lfloor>r * 2 ^ 80\<rfloor>\<close>, which tells apart any two multiples of \<open>2 ^ - 80\<close>
  as 17 significant digits tell apart any two doubles. Its clock stands still. It serves
  to run the definitions on concrete inputs.
\<close>

definition num_sgn :: "number \<Rightarrow> int" where
  "num_sgn a = (case a of Fin x \<Rightarrow> (if x < 0 then - 1 else if x = 0 then 0 else 1)
                 | PInf \<Rightarrow> 1 | NInf \<Rightarrow> - 1 | NaN \<Rightarrow> 0)"

definition ex_add :: "number \<Rightarrow> number \<Rightarrow> number" where
  "ex_add a b = (case (a, b) of
       (Fin x, Fin y) \<Rightarrow> Fin (x + y)
     | (NaN, _) \<Rightarrow> NaN | (_, NaN) \<Rightarrow> NaN
     | (PInf, NInf) \<Rightarrow> NaN | (NInf, PInf) \<Rightarrow> NaN
     | (PInf, _) \<Rightarrow> PInf | (_, PInf) \<Rightarrow> PInf
     | (NInf, _) \<Rightarrow> NInf | (_, NInf) \<Rightarrow> NInf)"

definition ex_sub :: "number \<Rightarrow> number \<Rightarrow> number" where
  "ex_sub a b = ex_add a (num_neg b)"

definition ex_mul :: "number \<Rightarrow> number \<Rightarrow> number" where
  "ex_mul a b = (case (a, b) of
       (Fin x, Fin y) \<Rightarrow> Fin (x * y)
     | _ \<Rightarrow> (if a = NaN \<or> b = NaN \<or> num_sgn a * num_sgn b = 0 then NaN
             else if 0 < num_sgn a * num_sgn b then PInf else NInf))"

definition ex_div :: "number \<Rightarrow> number \<Rightarrow> number" where
  "ex_div a b = (case (a, b) of
       (Fin x, Fin y) \<Rightarrow>
         (if y = 0 then (if x = 0 then NaN else if 0 < x then PInf else NInf) else Fin (x / y))
     | (Fin x, _) \<Rightarrow> (if b = NaN then NaN else Fin 0)
     | (_, Fin y) \<Rightarrow>
         (if a = NaN then NaN
          else if 0 < num_sgn a * (if y < 0 then - 1 else 1) then PInf else NInf)
     | _ \<Rightarrow> NaN)"

definition ex_pow :: "number \<Rightarrow> number \<Rightarrow> number" where
  "ex_pow a b = (case (a, b) of
       (Fin x, Fin y) \<Rightarrow>
         (if y = of_int \<lfloor>y\<rfloor> then
            (if 0 \<le> y then Fin (x ^ nat \<lfloor>y\<rfloor>)
             else if x = 0 then PInf else Fin (1 / x ^ nat \<lfloor>- y\<rfloor>))
          else if x < 0 then NaN else Fin (x powr y))
     | _ \<Rightarrow> NaN)"

definition ex_fun :: "(real \<Rightarrow> number) \<Rightarrow> number \<Rightarrow> number" where
  "ex_fun f a = (case a of Fin x \<Rightarrow> f x | _ \<Rightarrow> NaN)"

definition ex_key :: "real \<Rightarrow> string" where
  "ex_key r = String_int \<lfloor>r * 2 ^ 80\<rfloor>"

definition exact_engine :: engine where
  "exact_engine =
     \<lparr>f_add = ex_add, f_sub = ex_sub, f_mul = ex_mul, f_div = ex_div,
      Math_sin = ex_fun (\<lambda>x. Fin (sin x)),
      Math_cos = ex_fun (\<lambda>x. Fin (cos x)),
      Math_tan = ex_fun (\<lambda>x. Fin (tan x)),
      Math_exp = ex_fun (\<lambda>x. Fin (exp x)),
      Math_log = ex_fun (\<lambda>x. if x < 0 then NaN else if x = 0 then NInf else Fin (ln x)),
      Math_sqrt = ex_fun (\<lambda>x. if x < 0 then NaN else Fin (sqrt x)),
      Math_pow = ex_pow,
      toPrecision17 = ex_key,
      performance_now = (\<lambda>n. Fin 0)\<rparr>"

text \<open>A configuration with nothing enabled, to be updated field by field.\<close>

definition base_config :: config where
  "base_config =
     \<lparr>N = 0, target = Fin 0, constants = [],
      use_sin = False, use_cos = False, use_tan = False, use_exp = False, use_ln = False,
      use_sqrt = False, use_neg = False, use_pow = False,
      keep_side = ''both'', max_cost = 1, keep_top = 10, max_seconds = Fin 10,
      epsilon = lit_1e_12\<rparr>"


section \<open>States of a run\<close>

text \<open>
  \<open>same_topk st st'\<close>: the two states have the same heap, the same \<open>savedValues\<close> and
  the same count. \<open>evolves E cfg st st'\<close>: \<open>st'\<close> is reached from \<open>st\<close> by the effects a
  run has, none of them in a state where \<open>stopped\<close> is set: a call of \<open>considerValue\<close>, a
  call of \<open>timeCheck\<close> (which may throw), \<open>memo.set\<close>, and the clock reading of the progress
  callback. Every state of a run is reached so from \<open>init_state\<close>.
\<close>

definition same_topk :: "state \<Rightarrow> state \<Rightarrow> bool" where
  "same_topk st st' =
     (heap st' = heap st \<and> savedValues st' = savedValues st \<and>
      exprCountTotal st' = exprCountTotal st)"

inductive evolves :: "engine \<Rightarrow> config \<Rightarrow> state \<Rightarrow> state \<Rightarrow> bool"
  for E :: engine and cfg :: config and st :: state where
  evolves_refl: "evolves E cfg st st"
| evolves_consider:
    "evolves E cfg st st1 \<Longrightarrow> \<not> stopped st1 \<Longrightarrow>
     evolves E cfg st (snd (considerValue E cfg x text st1))"
| evolves_tick:
    "evolves E cfg st st1 \<Longrightarrow> \<not> stopped st1 \<Longrightarrow> evolves E cfg st (snd (timeCheck E cfg st1))"
| evolves_memo:
    "evolves E cfg st st1 \<Longrightarrow> \<not> stopped st1 \<Longrightarrow> evolves E cfg st (st1\<lparr>memo := m\<rparr>)"
| evolves_progress:
    "evolves E cfg st st1 \<Longrightarrow> \<not> stopped st1 \<Longrightarrow>
     evolves E cfg st (st1\<lparr>clock_reads := Suc (clock_reads st1)\<rparr>)"

text \<open>The invariant of the result set: the heap has at most \<open>keep_top\<close> entries (none
  when \<open>keep_top\<close> is not positive), their keys are pairwise distinct, and \<open>savedValues\<close>
  is the set of their keys.\<close>

definition key_of :: "engine \<Rightarrow> cand \<Rightarrow> string" where
  "key_of E c = key_repr E (val c)"

definition topk_inv :: "engine \<Rightarrow> config \<Rightarrow> state \<Rightarrow> bool" where
  "topk_inv E cfg st =
     (int (length (heap st)) \<le> max 0 (keep_top cfg) \<and>
      distinct (map (key_of E) (heap st)) \<and>
      savedValues st = set (map (key_of E) (heap st)))"

text \<open>What C5 claims of the result set: at most \<open>keep_top\<close> entries in the heap and in
  the set, and no two entries with the same key.\<close>

definition result_set_ok :: "engine \<Rightarrow> config \<Rightarrow> state \<Rightarrow> bool" where
  "result_set_ok E cfg st =
     (int (length (heap st)) \<le> keep_top cfg \<and>
      int (card (savedValues st)) \<le> keep_top cfg \<and>
      distinct (map (key_of E) (heap st)))"

text \<open>A configuration whose heap is full after level 2 and is offered more at level 3:
  the integer 1, negation, the four arithmetic operators, room for two candidates, costs
  up to 3.\<close>

definition dedup_config :: config where
  "dedup_config = base_config\<lparr>N := 1, target := Fin 1, use_neg := True, keep_top := 2,
     max_cost := 3\<rparr>"

text \<open>\<open>runs_to E cfg st r st'\<close>: a part of a run that starts in \<open>st\<close> and ends in \<open>st'\<close>
  with the outcome \<open>r\<close> has only had the effects of \<open>evolves\<close>, and \<open>stopped\<close> is set at
  its end exactly when the outcome is the timeout.\<close>

definition runs_to :: "engine \<Rightarrow> config \<Rightarrow> state \<Rightarrow> exn + 'a \<Rightarrow> state \<Rightarrow> bool" where
  "runs_to E cfg st r st' = (evolves E cfg st st' \<and> (stopped st' \<longleftrightarrow> r = Inl Timeout))"

text \<open>\<open>memo_frame c m m'\<close>: from the table \<open>m\<close> to the table \<open>m'\<close>, no entry of a cost
  above \<open>c\<close> has changed and no entry that was there has changed.\<close>

definition memo_frame :: "nat \<Rightarrow> (nat \<times> item list) list \<Rightarrow> (nat \<times> item list) list \<Rightarrow> bool" where
  "memo_frame c m m' =
     ((\<forall>k. c < k \<longrightarrow> map_of m' k = map_of m k) \<and>
      (\<forall>k v. map_of m k = Some v \<longrightarrow> map_of m' k = Some v))"



definition unbudgeted :: "config \<Rightarrow> config" where
  "unbudgeted cfg = cfg\<lparr>max_seconds := PInf\<rparr>"


text \<open>An engine whose clock advances by one second at each reading.\<close>

definition ticking_engine :: engine where
  "ticking_engine = exact_engine\<lparr>performance_now := (\<lambda>n. Fin (of_nat n * 1000))\<rparr>"


text \<open>The entries the spec gives to cost 1: the integers 1 to \<open>N\<close> with their decimal
  literals, then the named constants with their names.\<close>

definition level1_atoms :: "config \<Rightarrow> item list" where
  "level1_atoms cfg =
     map (\<lambda>n. \<lparr>val = Fin (of_int n), expr = String_int n\<rparr>) [1..N cfg] @
     map (\<lambda>c. \<lparr>val = snd c, expr = fst c\<rparr>) (constants cfg)"

text \<open>The clock never shows the budget exceeded.\<close>

definition within_budget :: "engine \<Rightarrow> config \<Rightarrow> bool" where
  "within_budget E cfg =
     (\<forall>n. \<not> num_gt (f_sub E (nowSec E n) (start E)) (max_seconds cfg))"

text \<open>A configuration with two integers and one constant.\<close>

definition atoms_config :: config where
  "atoms_config = base_config\<lparr>N := 2, constants := [(''c'', Fin (5 / 2))]\<rparr>"

text \<open>The two rules of the binary step in the words of the spec. \<open>canon_le L R\<close>:
  \<open>(L.value, L.text)\<close> is lexicographically at most \<open>(R.value, R.text)\<close>, the value compared
  first. \<open>identity_pruned E cfg opname R\<close>: \<open>+\<close> or \<open>-\<close> with \<open>|R.value| \<le> epsilon\<close>, or
  \<open>*\<close> or \<open>/\<close> with \<open>|R.value - 1| \<le> epsilon\<close>. \<open>combination opname op A B\<close> is the entry
  for \<open>A op B\<close>.\<close>

definition canon_le :: "item \<Rightarrow> item \<Rightarrow> bool" where
  "canon_le L R = (num_lt (val L) (val R) \<or> (num_eq (val L) (val R) \<and> expr L \<le> expr R))"

definition identity_pruned :: "engine \<Rightarrow> config \<Rightarrow> string \<Rightarrow> item \<Rightarrow> bool" where
  "identity_pruned E cfg opname R =
     (((opname = ''+'' \<or> opname = ''-'') \<and> num_le (Math_abs (val R)) (epsilon_of cfg)) \<or>
      ((opname = ''*'' \<or> opname = ''/'') \<and>
         num_le (Math_abs (f_sub E (val R) (Fin 1))) (epsilon_of cfg)))"

definition combination :: "string \<Rightarrow> (number \<Rightarrow> number \<Rightarrow> number) \<Rightarrow> item \<Rightarrow> item \<Rightarrow> item" where
  "combination opname op A B =
     \<lparr>val = safeEvalBin op (val A) (val B),
      expr = ''('' @ expr A @ '' '' @ opname @ '' '' @ expr B @ '')''\<rparr>"

text \<open>A configuration for identity elimination: the integer 1, a constant \<open>z = 2\<^sup>-\<^sup>4\<^sup>0\<close>
  (\<open>9.094947017729282e-13\<close>, below the default \<open>epsilon\<close>), the four arithmetic operators,
  costs up to 3, and the single best candidate for the target \<open>1 - 2\<^sup>-\<^sup>4\<^sup>0\<close>.\<close>

definition identity_config :: config where
  "identity_config =
     base_config\<lparr>N := 1, target := Fin (1 - 1 / 2 ^ 40), constants := [(''z'', Fin (1 / 2 ^ 40))],
       max_cost := 3, keep_top := 1\<rparr>"

text \<open>The worst error retained: the maximum of \<open>err\<close> over the heap's entries, taken with
  the comparison of JavaScript (\<open>-Infinity\<close> for an empty heap).\<close>

definition worst_error :: "cand list \<Rightarrow> number" where
  "worst_error h = foldr (\<lambda>c m. if num_lt m (err c) then err c else m) h NInf"

text \<open>\<open>dominated h h'\<close>: every entry of \<open>h'\<close> is an entry of \<open>h\<close> or has a smaller error
  than one. \<open>errors_ok E cfg st\<close>: every heap entry has a finite value and the error
  \<open>|target - value|\<close>.\<close>

definition dominated :: "cand list \<Rightarrow> cand list \<Rightarrow> bool" where
  "dominated h h' = (\<forall>c' \<in> set h'. \<exists>c \<in> set h. c' = c \<or> num_lt (err c') (err c))"

definition errors_ok :: "engine \<Rightarrow> config \<Rightarrow> state \<Rightarrow> bool" where
  "errors_ok E cfg st =
     (\<forall>c \<in> set (heap st).
        isFiniteNumber (val c) \<and> err c = Math_abs (f_sub E (target cfg) (val c)))"

text \<open>A configuration whose heap is not full after level 1: the integer 1, negation, room
  for two candidates.\<close>

definition fill_config :: config where
  "fill_config = base_config\<lparr>N := 1, target := Fin 1, use_neg := True, keep_top := 2,
     max_cost := 2\<rparr>"

text \<open>The order of the list returned. \<open>sorted_by_error_then_text\<close>: ascending by error,
  entries of equal error ascending by text, as C4 has it. \<open>sorted_by_error\<close>: ascending by
  error.\<close>

definition sorted_by_error_then_text :: "cand list \<Rightarrow> bool" where
  "sorted_by_error_then_text rs =
     sorted_wrt (\<lambda>a b. num_lt (err a) (err b) \<or> (num_eq (err a) (err b) \<and> expr a \<le> expr b)) rs"

definition sorted_by_error :: "cand list \<Rightarrow> bool" where
  "sorted_by_error rs = sorted_wrt (\<lambda>a b. num_le (err a) (err b)) rs"

text \<open>A configuration with ties: the integers 1 to 4 around the target 2.5, room for all
  four.\<close>

definition tie_config :: config where
  "tie_config = base_config\<lparr>N := 4, target := Fin (5 / 2), keep_top := 4\<rparr>"

section \<open>Facts about numbers\<close>

lemma num_simps [simp]:
  "isFiniteNumber (Fin x)" "\<not> isFiniteNumber NaN" "\<not> isFiniteNumber PInf" "\<not> isFiniteNumber NInf"
  "num_lt (Fin x) (Fin y) = (x < y)"
  "num_gt (Fin x) (Fin y) = (y < x)"
  "num_le (Fin x) (Fin y) = (x \<le> y)"
  "num_ge (Fin x) (Fin y) = (y \<le> x)"
  "num_eq (Fin x) (Fin y) = (x = y)"
  "Math_abs (Fin x) = Fin \<bar>x\<bar>"
  "num_neg (Fin x) = Fin (- x)"
  "Math_round (Fin x) = Fin (of_int \<lfloor>x + 1 / 2\<rfloor>)"
  by (auto simp: isFiniteNumber_def num_lt_def num_gt_def num_le_def num_ge_def num_eq_def
      Math_abs_def num_neg_def Math_round_def)

lemma num_nan_simps [simp]:
  "\<not> num_lt NaN a" "\<not> num_lt a NaN" "\<not> num_gt NaN a" "\<not> num_gt a NaN"
  "\<not> num_le NaN a" "\<not> num_le a NaN" "\<not> num_eq NaN a" "\<not> num_eq a NaN"
  "Math_abs NaN = NaN"
  by (auto simp: num_lt_def num_gt_def num_le_def num_eq_def Math_abs_def split: number.splits)

lemma isFiniteNumber_iff: "isFiniteNumber a \<longleftrightarrow> (\<exists>x. a = Fin x)"
  by (cases a) auto

lemma num_lt_trans: "num_lt a b \<Longrightarrow> num_lt b c \<Longrightarrow> num_lt a c"
  by (cases a; cases b; cases c) (auto simp: num_lt_def)

lemma num_lt_irrefl [simp]: "\<not> num_lt a a"
  by (cases a) (auto simp: num_lt_def)

lemma num_le_refl: "a \<noteq> NaN \<Longrightarrow> num_le a a"
  by (simp add: num_le_def num_eq_def)

lemma num_le_trans: "num_le a b \<Longrightarrow> num_le b c \<Longrightarrow> num_le a c"
  by (cases a; cases b; cases c) (auto simp: num_le_def num_lt_def num_eq_def)

lemma num_lt_imp_le: "num_lt a b \<Longrightarrow> num_le a b"
  by (simp add: num_le_def)

lemma num_le_total: "a \<noteq> NaN \<Longrightarrow> b \<noteq> NaN \<Longrightarrow> num_le a b \<or> num_lt b a"
  by (cases a; cases b) (auto simp: num_le_def num_lt_def num_eq_def)

lemma num_lt_not_NaN: "num_lt a b \<Longrightarrow> a \<noteq> NaN \<and> b \<noteq> NaN"
  by auto

lemma round_near_int:
  fixes b :: real
  assumes "\<bar>b - of_int k\<bar> \<le> c" "c < 1 / 2"
  shows "\<lfloor>b + 1 / 2\<rfloor> = k"
proof -
  have "of_int k \<le> b + 1 / 2" "b + 1 / 2 < of_int k + 1"
    using assms by (auto simp: abs_le_iff)
  then show ?thesis by (simp add: floor_unique)
qed

lemma lit_1e_9_small: "(4835703278458517 / 2 ^ 82 :: real) < 1 / 2"
  by simp

lemma exact_engine_simps [simp]:
  "f_add exact_engine (Fin x) (Fin y) = Fin (x + y)"
  "f_sub exact_engine (Fin x) (Fin y) = Fin (x - y)"
  "f_mul exact_engine (Fin x) (Fin y) = Fin (x * y)"
  "y \<noteq> 0 \<Longrightarrow> f_div exact_engine (Fin x) (Fin y) = Fin (x / y)"
  "toPrecision17 exact_engine = ex_key"
  "performance_now exact_engine n = Fin 0"
  by (simp_all add: exact_engine_def ex_add_def ex_sub_def ex_mul_def ex_div_def)

lemma exact_engine_math [simp]:
  "0 < x \<Longrightarrow> Math_log exact_engine (Fin x) = Fin (ln x)"
  "0 \<le> x \<Longrightarrow> Math_sqrt exact_engine (Fin x) = Fin (sqrt x)"
  "Math_pow exact_engine = ex_pow"
  by (simp_all add: exact_engine_def ex_fun_def)

section \<open>The power operator\<close>

text \<open>
  C10. For a negative base \<open>a\<close> and an exponent \<open>b\<close> that lies within \<open>1e-9\<close> of an
  integer \<open>k\<close>, \<open>safePow\<close> rounds the exponent to \<open>k\<close> and evaluates
  \<open>Math.pow(a, Math.round(b))\<close>, not \<open>Math.pow(a, b)\<close>; the result is kept when it is
  finite and at most \<open>1e300\<close> in magnitude. The subtraction \<open>b - Math.round(b)\<close> of such
  operands is exact in IEEE-754 arithmetic, which is the hypothesis on the engine.
\<close>
theorem safePow_negative_base_rounds_exponent:
  assumes neg: "a < 0"
    and near: "num_le (Fin \<bar>b - of_int k\<bar>) lit_1e_9"
    and sub_exact: "f_sub E (Fin b) (Fin (of_int k)) = Fin (b - of_int k)"
  shows "Math_round (Fin b) = Fin (of_int k) \<and>
         safePow E (Fin a) (Fin b) =
           (let v = Math_pow E (Fin a) (Math_round (Fin b))
            in if \<not> isFiniteNumber v \<or> num_gt (Math_abs v) lit_1e300 then NaN else v)"
proof -
  from near have le: "\<bar>b - of_int k\<bar> \<le> 4835703278458517 / 2 ^ 82"
    by (simp add: lit_1e_9_def)
  have r: "\<lfloor>b + 1 / 2\<rfloor> = k"
    by (rule round_near_int [OF le lit_1e_9_small])
  have "\<not> num_gt (Math_abs (f_sub E (Fin b) (Math_round (Fin b)))) lit_1e_9"
    using le by (simp add: r sub_exact lit_1e_9_def)
  then show ?thesis
    using neg by (simp add: safePow_def r Let_def)
qed

text \<open>At \<open>a = - 2\<close>, \<open>b = 2 + 2 ^ - 40\<close> the result is 4, where \<open>Math.pow(a, b)\<close> itself
  is NaN.\<close>

theorem safePow_negative_base_rounds_exponent_witness:
  "safePow exact_engine (Fin (- 2)) (Fin (2 + 1 / 2 ^ 40)) = Fin 4 \<and>
   Math_pow exact_engine (Fin (- 2)) (Fin (2 + 1 / 2 ^ 40)) = NaN"
proof -
  have near: "num_le (Fin \<bar>(2 + 1 / 2 ^ 40) - of_int 2\<bar>) lit_1e_9"
    by (simp add: lit_1e_9_def)
  have sub: "f_sub exact_engine (Fin (2 + 1 / 2 ^ 40)) (Fin (of_int 2)) = Fin ((2 + 1 / 2 ^ 40) - of_int 2)"
    by simp
  have neg: "(- 2 :: real) < 0" by simp
  have fl: "\<lfloor>(2199023255553 / 1099511627776 :: real)\<rfloor> = 2" by simp
  have ni: "(2199023255553 / 1099511627776 :: real) \<noteq> 2" by simp
  show ?thesis
    using safePow_negative_base_rounds_exponent [OF neg near sub]
    by (simp add: ex_pow_def lit_1e300_def Let_def fl ni)
qed

section \<open>The numeric evaluator\<close>

lemma safeEvalFunc_cases: "isFiniteNumber (safeEvalFunc f y) \<or> safeEvalFunc f y = NaN"
  by (simp add: safeEvalFunc_def Let_def)

lemma safeEvalBin_cases: "isFiniteNumber (safeEvalBin op u w) \<or> safeEvalBin op u w = NaN"
  by (simp add: safeEvalBin_def Let_def)










lemma safePow_cases: "isFiniteNumber (safePow E u w) \<or> safePow E u w = NaN"
  by (auto simp: safePow_def Let_def)



section \<open>Cancellation pruning\<close>

text \<open>
  C2. The claim: \<open>ln\<close> is skipped only over a direct application of \<open>exp\<close>, so that
  every entry removed is an identity of a shorter expression. The code strips one pair of
  enclosing parentheses without checking that they match each other: the sum of two
  \<open>exp\<close> applications, \<open>(exp(1) + exp(2))\<close>, which the binary step produces from
  \<open>exp(1)\<close> and \<open>exp(2)\<close>, passes \<open>is_direct_application\<close> for \<open>exp\<close>, and the unary
  step produces no \<open>ln\<close> entry for it, though \<open>ln(e + e\<^sup>2)\<close> is no identity.
\<close>

theorem ln_skipped_over_sum_of_exps:
  "binary_items exact_engine base_config
      \<lparr>val = Fin (exp 1), expr = ''exp(1)''\<rparr> \<lparr>val = Fin (exp 2), expr = ''exp(2)''\<rparr>
      (''+'', f_add exact_engine) =
     [\<lparr>val = Fin (exp 1 + exp 2), expr = ''(exp(1) + exp(2))''\<rparr>] \<and>
   is_direct_application ''(exp(1) + exp(2))'' ''exp'' \<and>
   unary_item \<lparr>val = Fin (exp 1 + exp 2), expr = ''(exp(1) + exp(2))''\<rparr> (''ln'', f) = []"
proof -
  have big: "\<not> \<bar>exp (2::real)\<bar> \<le> 4951760157141521 / 2 ^ 92"
  proof -
    have "(1::real) \<le> exp 2" by simp
    moreover have "(4951760157141521 / 2 ^ 92 :: real) < 1" by simp
    ultimately show ?thesis by linarith
  qed
  have 1: "binary_items exact_engine base_config
      \<lparr>val = Fin (exp 1), expr = ''exp(1)''\<rparr> \<lparr>val = Fin (exp 2), expr = ''exp(2)''\<rparr>
      (''+'', f_add exact_engine) =
     [\<lparr>val = Fin (exp 1 + exp 2), expr = ''(exp(1) + exp(2))''\<rparr>]"
    using big
    by (simp add: binary_items_def epsilon_of_def base_config_def lit_1e_12_def safeEvalBin_def
        Let_def)
  have t0: "trim ''(exp(1) + exp(2))'' = ''(exp(1) + exp(2))''"
    by (simp add: trim_def is_ws_def)
  have p0: "startsWith ''(exp(1) + exp(2))'' ''('' \<and> endsWith ''(exp(1) + exp(2))'' '')''"
    by (simp add: startsWith_def endsWith_def)
  have t1: "trim (slice_to_last 1 ''(exp(1) + exp(2))'') = ''exp(1) + exp(2)''"
    by (simp add: slice_to_last_def trim_def is_ws_def)
  have p1: "\<not> startsWith ''exp(1) + exp(2)'' ''-(''"
    by (simp add: startsWith_def)
  have p2: "startsWith ''exp(1) + exp(2)'' (''exp'' @ ''('') \<and> endsWith ''exp(1) + exp(2)'' '')''"
    by (simp add: startsWith_def endsWith_def)
  have 2: "is_direct_application ''(exp(1) + exp(2))'' ''exp''"
    unfolding is_direct_application_def Let_def t0
    using p0 p1 p2 by (simp add: t1 [unfolded One_nat_def])
  from 2 have 3: "unary_item \<lparr>val = Fin (exp 1 + exp 2), expr = ''(exp(1) + exp(2))''\<rparr> (''ln'', f) = []"
    by (simp add: unary_item_def Let_def)
  from 1 2 3 show ?thesis by blast
qed

section \<open>The heap keeps its entries\<close>

lemma mset_siftUp: "i < length a \<Longrightarrow> mset (siftUp cmp a i) = mset a"
proof (induction cmp a i rule: siftUp.induct)
  case (1 cmp a i)
  show ?case
  proof (cases "0 < i \<and> 0 < cmp (a ! i) (a ! ((i - 1) div 2))")
    case True
    then have p: "(i - 1) div 2 < length a" using "1.prems" by simp
    have "mset (siftUp cmp (a[i := a ! ((i - 1) div 2), (i - 1) div 2 := a ! i]) ((i - 1) div 2)) =
        mset (a[i := a ! ((i - 1) div 2), (i - 1) div 2 := a ! i])"
      using True p by (intro "1.IH") auto
    also have "\<dots> = mset a"
      using p "1.prems" by (simp add: mset_swap)
    finally show ?thesis
      using True by (subst siftUp.simps) (simp add: Let_def)
  next
    case False
    then show ?thesis by (subst siftUp.simps) (auto simp: Let_def)
  qed
qed

lemma mset_siftDown: "mset (siftDown cmp a i) = mset a"
proof (induction "length a - i" arbitrary: a i rule: less_induct)
  case less
  define largest1 where
    "largest1 = (if 2 * i + 1 < length a \<and> 0 < cmp (a ! (2 * i + 1)) (a ! i) then 2 * i + 1 else i)"
  define largest where
    "largest = (if 2 * i + 2 < length a \<and> 0 < cmp (a ! (2 * i + 2)) (a ! largest1)
                then 2 * i + 2 else largest1)"
  have unfold: "siftDown cmp a i =
      (if largest \<noteq> i then siftDown cmp (a[i := a ! largest, largest := a ! i]) largest else a)"
    by (subst siftDown.simps) (simp add: Let_def largest1_def largest_def)
  show ?case
  proof (cases "largest \<noteq> i")
    case True
    then have lt: "largest < length a" "i < largest"
      by (auto simp: largest_def largest1_def split: if_splits)
    have "mset (siftDown cmp (a[i := a ! largest, largest := a ! i]) largest) =
        mset (a[i := a ! largest, largest := a ! i])"
      using lt by (intro less) simp
    also have "\<dots> = mset a" using lt by (simp add: mset_swap)
    finally show ?thesis using True unfold by simp
  next
    case False
    then show ?thesis using unfold by simp
  qed
qed

lemma mset_heap_push: "mset (heap_push cmp x data) = add_mset x (mset data)"
  by (simp add: heap_push_def mset_siftUp)

lemma mset_heap_replace:
  "heap_replace cmp x (t # rest) = (Some t, h) \<Longrightarrow> mset h = add_mset x (mset rest)"
  by (auto simp: heap_replace_def mset_siftDown)

section \<open>The effects of a run\<close>

lemma evolves_trans:
  "evolves E cfg st1 st2 \<Longrightarrow> evolves E cfg st st1 \<Longrightarrow> evolves E cfg st st2"
  by (induction rule: evolves.induct) (auto intro: evolves.intros)

lemma considerValue_frame [simp]:
  "stopped (snd (considerValue E cfg x t st)) = stopped st"
  "memo (snd (considerValue E cfg x t st)) = memo st"
  "clock_reads (snd (considerValue E cfg x t st)) = clock_reads st"
  by (auto simp: considerValue_def Let_def split: option.splits prod.splits)

lemma considerValue_outcome:
  "fst (considerValue E cfg x t st) = Inr () \<or> fst (considerValue E cfg x t st) = Inl TypeError"
  by (auto simp: considerValue_def Let_def split: option.splits prod.splits)

lemma timeCheck_cases:
  "timeCheck E cfg st = (r, st') \<Longrightarrow>
     (r = Inr () \<and> st' = st\<lparr>clock_reads := Suc (clock_reads st)\<rparr>) \<or>
     (r = Inl Timeout \<and> st' = st\<lparr>clock_reads := Suc (clock_reads st), stopped := True\<rparr>)"
  by (auto simp: timeCheck_def Let_def split: if_splits)

lemma timeCheck_frame [simp]:
  "heap (snd (timeCheck E cfg st)) = heap st"
  "savedValues (snd (timeCheck E cfg st)) = savedValues st"
  "exprCountTotal (snd (timeCheck E cfg st)) = exprCountTotal st"
  "memo (snd (timeCheck E cfg st)) = memo st"
  by (auto simp: timeCheck_def Let_def)

lemma runs_to_refl: "\<not> stopped st \<Longrightarrow> runs_to E cfg st (Inr x) st"
  by (simp add: runs_to_def evolves_refl)

lemma runs_to_trans:
  "runs_to E cfg st (Inr x) st1 \<Longrightarrow> runs_to E cfg st1 r st2 \<Longrightarrow> runs_to E cfg st r st2"
  by (auto simp: runs_to_def intro: evolves_trans)

lemma runs_to_not_stopped: "runs_to E cfg st (Inr x) st1 \<Longrightarrow> \<not> stopped st1"
  by (simp add: runs_to_def)

lemma runs_to_considerValue:
  assumes ns: "\<not> stopped st" and eq: "considerValue E cfg x t st = (r, st')"
  shows "runs_to E cfg st r st'"
proof -
  from eq have r: "r = fst (considerValue E cfg x t st)"
    and st': "st' = snd (considerValue E cfg x t st)"
    by simp_all
  have "evolves E cfg st st'"
    unfolding st' by (rule evolves_consider [OF evolves_refl ns])
  moreover have "\<not> stopped st'"
    using ns by (simp add: st')
  moreover have "r \<noteq> Inl Timeout"
    using considerValue_outcome [of E cfg x t st] by (auto simp: r)
  ultimately show ?thesis by (simp add: runs_to_def)
qed

lemma runs_to_timeCheck:
  "\<not> stopped st \<Longrightarrow> timeCheck E cfg st = (r, st') \<Longrightarrow> runs_to E cfg st r st'"
  using evolves_tick [OF evolves_refl, of st E cfg]
  by (auto simp: runs_to_def dest: timeCheck_cases)


lemma memo_considerValue: "considerValue E cfg x t st = (r, st') \<Longrightarrow> memo st' = memo st"
  using considerValue_frame(2) [of E cfg x t st] by simp

lemma memo_timeCheck: "timeCheck E cfg st = (r, st') \<Longrightarrow> memo st' = memo st"
  using timeCheck_frame(4) [of E cfg st] by simp

lemma feed_runs_to:
  "\<not> stopped st \<Longrightarrow> feed E cfg xs res st = (r, st') \<Longrightarrow>
   runs_to E cfg st r st' \<and> memo st' = memo st"
proof (induction xs arbitrary: res st)
  case Nil
  then show ?case by (auto simp: runs_to_refl)
next
  case (Cons x xs)
  obtain a st1 where c: "considerValue E cfg (val x) (expr x) st = (a, st1)"
    by (cases "considerValue E cfg (val x) (expr x) st")
  note r1 = runs_to_considerValue [OF Cons.prems(1) c] and m1 = memo_considerValue [OF c]
  show ?case
  proof (cases a)
    case (Inl e)
    with Cons.prems c r1 m1 show ?thesis by (auto simp: runs_to_def)
  next
    case (Inr u)
    with Cons.prems c have "feed E cfg xs (res @ [x]) st1 = (r, st')" by simp
    from Cons.IH [OF _ this] r1 m1 Inr show ?thesis
      by (auto intro: runs_to_trans dest: runs_to_not_stopped)
  qed
qed

lemma atoms_loop_runs_to:
  "\<not> stopped st \<Longrightarrow> atoms_loop E cfg xs res st = (r, st') \<Longrightarrow>
   runs_to E cfg st r st' \<and> memo st' = memo st"
proof (induction xs arbitrary: res st)
  case Nil
  then show ?case by (auto simp: runs_to_refl)
next
  case (Cons x xs)
  obtain a st1 where t: "timeCheck E cfg st = (a, st1)"
    by (cases "timeCheck E cfg st")
  note r1 = runs_to_timeCheck [OF Cons.prems(1) t] and m1 = memo_timeCheck [OF t]
  show ?case
  proof (cases a)
    case (Inl e)
    with Cons.prems t r1 m1 show ?thesis by (auto simp: runs_to_def)
  next
    case (Inr u)
    obtain b st2 where f: "feed E cfg [x] res st1 = (b, st2)"
      by (cases "feed E cfg [x] res st1")
    have ns1: "\<not> stopped st1" using r1 Inr by (auto dest: runs_to_not_stopped)
    note r2 = feed_runs_to [OF ns1 f]
    show ?thesis
    proof (cases b)
      case (Inl e)
      with Cons.prems t f \<open>a = Inr u\<close> r1 r2 m1 show ?thesis
        by (auto intro: runs_to_trans)
    next
      case (Inr res1)
      with Cons.prems t f \<open>a = Inr u\<close> have "atoms_loop E cfg xs res1 st2 = (r, st')"
        by simp
      from Cons.IH [OF _ this] r1 r2 m1 Inr \<open>a = Inr u\<close> show ?thesis
        by (auto intro: runs_to_trans dest: runs_to_not_stopped)
    qed
  qed
qed

lemma unary_loop_runs_to:
  "\<not> stopped st \<Longrightarrow> unary_loop E cfg xs res st = (r, st') \<Longrightarrow>
   runs_to E cfg st r st' \<and> memo st' = memo st"
proof (induction xs arbitrary: res st)
  case Nil
  then show ?case by (auto simp: runs_to_refl)
next
  case (Cons x xs)
  obtain a st1 where t: "timeCheck E cfg st = (a, st1)"
    by (cases "timeCheck E cfg st")
  note r1 = runs_to_timeCheck [OF Cons.prems(1) t] and m1 = memo_timeCheck [OF t]
  show ?case
  proof (cases a)
    case (Inl e)
    with Cons.prems t r1 m1 show ?thesis by (auto simp: runs_to_def)
  next
    case au: (Inr u)
    have ns1: "\<not> stopped st1" using r1 au by (auto dest: runs_to_not_stopped)
    show ?thesis
    proof (cases "isFiniteNumber (val x)")
      case False
      with Cons.prems t au have "unary_loop E cfg xs res st1 = (r, st')" by simp
      from Cons.IH [OF ns1 this] r1 m1 au show ?thesis
        by (auto intro: runs_to_trans)
    next
      case True
      obtain b st2 where
        f: "feed E cfg (concat (map (unary_item x) (unaryFuncs E cfg))) res st1 = (b, st2)"
        by (cases "feed E cfg (concat (map (unary_item x) (unaryFuncs E cfg))) res st1")
      note r2 = feed_runs_to [OF ns1 f]
      show ?thesis
      proof (cases b)
        case (Inl e)
        with Cons.prems t f au True r1 r2 m1 show ?thesis
          by (auto intro: runs_to_trans)
      next
        case (Inr res1)
        with Cons.prems t f au True have "unary_loop E cfg xs res1 st2 = (r, st')"
          by simp
        from Cons.IH [OF _ this] r1 r2 m1 Inr au show ?thesis
          by (auto intro: runs_to_trans dest: runs_to_not_stopped)
      qed
    qed
  qed
qed

lemma right_loop_runs_to:
  "\<not> stopped st \<Longrightarrow> right_loop E cfg L xs res st = (r, st') \<Longrightarrow>
   runs_to E cfg st r st' \<and> memo st' = memo st"
proof (induction xs arbitrary: res st)
  case Nil
  then show ?case by (auto simp: runs_to_refl)
next
  case (Cons x xs)
  obtain a st1 where t: "timeCheck E cfg st = (a, st1)"
    by (cases "timeCheck E cfg st")
  note r1 = runs_to_timeCheck [OF Cons.prems(1) t] and m1 = memo_timeCheck [OF t]
  show ?case
  proof (cases a)
    case (Inl e)
    with Cons.prems t r1 m1 show ?thesis by (auto simp: runs_to_def)
  next
    case au: (Inr u)
    have ns1: "\<not> stopped st1" using r1 au by (auto dest: runs_to_not_stopped)
    show ?thesis
    proof (cases "isFiniteNumber (val L) \<and> isFiniteNumber (val x)")
      case False
      with Cons.prems t au have "right_loop E cfg L xs res st1 = (r, st')" by auto
      from Cons.IH [OF ns1 this] r1 m1 au show ?thesis
        by (auto intro: runs_to_trans)
    next
      case True
      obtain b st2 where
        f: "feed E cfg (concat (map (binary_items E cfg L x) (binaryOps E cfg))) res st1 = (b, st2)"
        by (cases "feed E cfg (concat (map (binary_items E cfg L x) (binaryOps E cfg))) res st1")
      note r2 = feed_runs_to [OF ns1 f]
      show ?thesis
      proof (cases b)
        case (Inl e)
        with Cons.prems t f au True r1 r2 m1 show ?thesis
          by (auto intro: runs_to_trans)
      next
        case (Inr res1)
        with Cons.prems t f au True have "right_loop E cfg L xs res1 st2 = (r, st')"
          by simp
        from Cons.IH [OF _ this] r1 r2 m1 Inr au show ?thesis
          by (auto intro: runs_to_trans dest: runs_to_not_stopped)
      qed
    qed
  qed
qed

lemma left_loop_runs_to:
  "\<not> stopped st \<Longrightarrow> left_loop E cfg xs rightArr res st = (r, st') \<Longrightarrow>
   runs_to E cfg st r st' \<and> memo st' = memo st"
proof (induction xs arbitrary: res st)
  case Nil
  then show ?case by (auto simp: runs_to_refl)
next
  case (Cons x xs)
  obtain a st1 where t: "timeCheck E cfg st = (a, st1)"
    by (cases "timeCheck E cfg st")
  note r1 = runs_to_timeCheck [OF Cons.prems(1) t] and m1 = memo_timeCheck [OF t]
  show ?case
  proof (cases a)
    case (Inl e)
    with Cons.prems t r1 m1 show ?thesis by (auto simp: runs_to_def)
  next
    case au: (Inr u)
    have ns1: "\<not> stopped st1" using r1 au by (auto dest: runs_to_not_stopped)
    obtain b st2 where f: "right_loop E cfg x rightArr res st1 = (b, st2)"
      by (cases "right_loop E cfg x rightArr res st1")
    note r2 = right_loop_runs_to [OF ns1 f]
    show ?thesis
    proof (cases b)
      case (Inl e)
      with Cons.prems t f au r1 r2 m1 show ?thesis
        by (auto intro: runs_to_trans)
    next
      case (Inr res1)
      with Cons.prems t f au have "left_loop E cfg xs rightArr res1 st2 = (r, st')"
        by simp
      from Cons.IH [OF _ this] r1 r2 m1 Inr au show ?thesis
        by (auto intro: runs_to_trans dest: runs_to_not_stopped)
    qed
  qed
qed


lemma memo_frame_refl [simp]: "memo_frame c m m"
  by (simp add: memo_frame_def)

lemma memo_frame_eq: "m' = m \<Longrightarrow> memo_frame c m m'"
  by simp

lemma memo_frame_trans:
  "memo_frame c m m1 \<Longrightarrow> memo_frame c' m1 m2 \<Longrightarrow> c \<le> d \<Longrightarrow> c' \<le> d \<Longrightarrow> memo_frame d m m2"
  by (auto simp: memo_frame_def)

lemma memo_frame_update:
  "map_of m c = None \<Longrightarrow> memo_frame c m (AList.update c v m)"
  by (auto simp: memo_frame_def update_conv')

lemma memo_frame_None:
  "memo_frame c m m' \<Longrightarrow> c < k \<Longrightarrow> map_of m k = None \<Longrightarrow> map_of m' k = None"
  by (simp add: memo_frame_def)

lemma enumerateCost_runs_to:
  "\<not> stopped st \<Longrightarrow> enumerateCost E cfg cost st = (r, st') \<Longrightarrow>
     runs_to E cfg st r st' \<and> memo_frame cost (memo st) (memo st')"
  "\<not> stopped st \<Longrightarrow> map_of (memo st) cost = None \<Longrightarrow>
   binary_splits E cfg cost a_cost res st = (r, st') \<Longrightarrow>
     runs_to E cfg st r st' \<and> memo_frame cost (memo st) (memo st')"
proof (induction E cfg cost st and E cfg cost a_cost res st arbitrary: r st' and r st'
    rule: enumerateCost_binary_splits.induct)
  case (1 E cfg cost st)
  note ns = "1.prems"(1) and eq = "1.prems"(2)
  show ?case
  proof (cases "map_of (memo st) cost")
    case (Some v)
    with ns eq show ?thesis
      by (subst (asm) enumerateCost.simps) (auto simp: runs_to_refl)
  next
    case None
    obtain a st1 where t: "timeCheck E cfg st = (a, st1)"
      by (cases "timeCheck E cfg st")
    note r1 = runs_to_timeCheck [OF ns t] and m1 = memo_timeCheck [OF t]
    show ?thesis
    proof (cases a)
      case (Inl e)
      with ns eq None t r1 m1 show ?thesis
        by (subst (asm) enumerateCost.simps) (auto simp: runs_to_def)
    next
      case au: (Inr u)
      have ns1: "\<not> stopped st1" using r1 au by (auto dest: runs_to_not_stopped)
      consider (one) "cost = 1" | (zero) "cost = 0" | (more) "cost \<noteq> 1" "cost \<noteq> 0"
        by blast
      then show ?thesis
      proof cases
        case one
        obtain b st2 where
          l1: "atoms_loop E cfg (map number_atom (numbers cfg)) [] st1 = (b, st2)"
          by (cases "atoms_loop E cfg (map number_atom (numbers cfg)) [] st1")
        note r2 = atoms_loop_runs_to [OF ns1 l1]
        show ?thesis
        proof (cases b)
          case (Inl e)
          with ns eq None t au one l1 have "r = Inl e" "st' = st2"
            by (subst (asm) enumerateCost.simps; simp)+
          with r1 r2 m1 au Inl show ?thesis
            by (auto simp: runs_to_def intro: evolves_trans)
        next
          case b: (Inr res1)
          have ns2: "\<not> stopped st2" using r2 b by (auto dest: runs_to_not_stopped)
          obtain c st3 where
            l2: "atoms_loop E cfg (map constant_atom (constants cfg)) res1 st2 = (c, st3)"
            by (cases "atoms_loop E cfg (map constant_atom (constants cfg)) res1 st2")
          note r3 = atoms_loop_runs_to [OF ns2 l2]
          show ?thesis
          proof (cases c)
            case (Inl e)
            with ns eq None t au one l1 b l2 have "r = Inl e" "st' = st3"
              by (subst (asm) enumerateCost.simps; simp)+
            with r1 r2 r3 m1 au b Inl show ?thesis
              by (auto simp: runs_to_def intro: evolves_trans)
          next
            case c: (Inr res2)
            have ns3: "\<not> stopped st3" using r3 c by (auto dest: runs_to_not_stopped)
            from ns eq None t au one l1 b l2 c
            have res: "r = Inr res2" "st' = st3\<lparr>memo := AList.update cost res2 (memo st3)\<rparr>"
              by (subst (asm) enumerateCost.simps; simp)+
            have m3: "memo st3 = memo st" using r2 r3 m1 by simp
            have "evolves E cfg st st3"
              using r1 r2 r3 au b c by (auto simp: runs_to_def intro: evolves_trans)
            then have "evolves E cfg st st'"
              unfolding res by (rule evolves_memo) (rule ns3)
            moreover have "memo_frame cost (memo st) (memo st')"
              using None by (simp add: res m3 memo_frame_update)
            ultimately show ?thesis
              using ns3 by (simp add: runs_to_def res)
          qed
        qed
      next
        case zero
        with ns eq None t au have "r = Inl RangeError" "st' = st1"
          by (subst (asm) enumerateCost.simps; simp)+
        with r1 m1 au show ?thesis
          by (auto simp: runs_to_def)
      next
        case more
        obtain b st2 where e1: "enumerateCost E cfg (cost - 1) st1 = (b, st2)"
          by (cases "enumerateCost E cfg (cost - 1) st1")
        have ih1: "runs_to E cfg st1 b st2 \<and> memo_frame (cost - 1) (memo st1) (memo st2)"
          using "1.IH"(1) [OF ns None t [symmetric] au more ns1 e1] .
        show ?thesis
        proof (cases b)
          case (Inl e)
          with ns eq None t au more e1 have "r = Inl e" "st' = st2"
            by (subst (asm) enumerateCost.simps; simp)+
          with r1 ih1 m1 au Inl show ?thesis
            by (auto simp: runs_to_def intro: evolves_trans memo_frame_trans)
        next
          case b: (Inr prev)
          have ns2: "\<not> stopped st2" using ih1 b by (auto dest: runs_to_not_stopped)
          obtain c st3 where l: "unary_loop E cfg prev [] st2 = (c, st3)"
            by (cases "unary_loop E cfg prev [] st2")
          note r3 = unary_loop_runs_to [OF ns2 l]
          have f3: "memo_frame (cost - 1) (memo st) (memo st3)"
            using ih1 r3 m1 by simp
          show ?thesis
          proof (cases c)
            case (Inl e)
            with ns eq None t au more e1 b l have "r = Inl e" "st' = st3"
              by (subst (asm) enumerateCost.simps; simp)+
            with r1 ih1 r3 f3 au b Inl show ?thesis
              by (auto simp: runs_to_def intro: evolves_trans memo_frame_trans)
          next
            case c: (Inr res1)
            have ns3: "\<not> stopped st3" using r3 c by (auto dest: runs_to_not_stopped)
            from ns eq None t au more e1 b l c
            have bs: "binary_splits E cfg cost 1 res1 st3 = (r, st')"
              by (subst (asm) enumerateCost.simps) simp
            have n3: "map_of (memo st3) cost = None"
              using memo_frame_None [OF f3 _ None] more by simp
            have ih2: "runs_to E cfg st3 r st' \<and> memo_frame cost (memo st3) (memo st')"
              using "1.IH"(2) [OF ns None t [symmetric] au more e1 [symmetric] b l [symmetric] c
                  ns3 n3 bs] .
            have "evolves E cfg st st3"
              using r1 ih1 r3 au b c by (auto simp: runs_to_def intro: evolves_trans)
            with ih2 f3 show ?thesis
              by (auto simp: runs_to_def intro: evolves_trans memo_frame_trans)
          qed
        qed
      qed
    qed
  qed
next
  case (2 E cfg cost a_cost res st)
  note ns = "2.prems"(1) and none = "2.prems"(2) and eq = "2.prems"(3)
  show ?case
  proof (cases "a_cost + 2 \<le> cost")
    case False
    with eq have res: "r = Inr res" "st' = st\<lparr>memo := AList.update cost res (memo st)\<rparr>"
      by (subst (asm) binary_splits.simps; simp)+
    have "evolves E cfg st st'"
      unfolding res by (rule evolves_memo [OF evolves_refl ns])
    with ns none show ?thesis
      by (simp add: runs_to_def res memo_frame_update)
  next
    case True
    obtain a st1 where e1: "enumerateCost E cfg a_cost st = (a, st1)"
      by (cases "enumerateCost E cfg a_cost st")
    have ih1: "runs_to E cfg st a st1 \<and> memo_frame a_cost (memo st) (memo st1)"
      using "2.IH"(1) [OF True ns e1] .
    show ?thesis
    proof (cases a)
      case (Inl e)
      with eq True e1 have "r = Inl e" "st' = st1"
        by (subst (asm) binary_splits.simps; simp)+
      with ih1 Inl True show ?thesis
        by (auto simp: runs_to_def intro: memo_frame_trans)
    next
      case a: (Inr leftArr)
      have ns1: "\<not> stopped st1" using ih1 a by (auto dest: runs_to_not_stopped)
      obtain b st2 where e2: "enumerateCost E cfg (cost - 1 - a_cost) st1 = (b, st2)"
        by (cases "enumerateCost E cfg (cost - 1 - a_cost) st1")
      have ih2: "runs_to E cfg st1 b st2 \<and> memo_frame (cost - 1 - a_cost) (memo st1) (memo st2)"
        using "2.IH"(2) [OF True e1 [symmetric] a ns1 e2] .
      have f2: "memo_frame (cost - 1) (memo st) (memo st2)"
        using ih1 ih2 True by (auto intro: memo_frame_trans)
      have ev2: "evolves E cfg st st2"
        using ih1 ih2 a by (auto simp: runs_to_def intro: evolves_trans)
      show ?thesis
      proof (cases b)
        case (Inl e)
        with eq True e1 a e2 have "r = Inl e" "st' = st2"
          by (subst (asm) binary_splits.simps; simp)+
        with ih2 ev2 f2 Inl True show ?thesis
          by (auto simp: runs_to_def intro: memo_frame_trans)
      next
        case b: (Inr rightArr)
        have ns2: "\<not> stopped st2" using ih2 b by (auto dest: runs_to_not_stopped)
        obtain c st3 where l: "left_loop E cfg leftArr rightArr res st2 = (c, st3)"
          by (cases "left_loop E cfg leftArr rightArr res st2")
        note r3 = left_loop_runs_to [OF ns2 l]
        have f3: "memo_frame (cost - 1) (memo st) (memo st3)"
          using f2 r3 by simp
        have ev3: "evolves E cfg st st3"
          using ev2 r3 by (auto simp: runs_to_def intro: evolves_trans)
        show ?thesis
        proof (cases c)
          case (Inl e)
          with eq True e1 a e2 b l have "r = Inl e" "st' = st3"
            by (subst (asm) binary_splits.simps; simp)+
          with r3 ev3 f3 Inl True show ?thesis
            by (auto simp: runs_to_def intro: memo_frame_trans)
        next
          case c: (Inr res1)
          have ns3: "\<not> stopped st3" using r3 c by (auto dest: runs_to_not_stopped)
          from eq True e1 a e2 b l c
          have bs: "binary_splits E cfg cost (a_cost + 1) res1 st3 = (r, st')"
            by (subst (asm) binary_splits.simps) simp
          have n3: "map_of (memo st3) cost = None"
            using memo_frame_None [OF f3 _ none] True by simp
          have ih3: "runs_to E cfg st3 r st' \<and> memo_frame cost (memo st3) (memo st')"
            using "2.IH"(3) [OF True e1 [symmetric] a e2 [symmetric] b l [symmetric] c ns3 n3 bs] .
          with ev3 f3 show ?thesis
            by (auto simp: runs_to_def intro: evolves_trans memo_frame_trans)
        qed
      qed
    qed
  qed
qed


lemma level_step_runs_to:
  assumes ns: "\<not> stopped st" and eq: "level_step E cfg onProgress cost st = (r, st')"
  shows "runs_to E cfg st r st'"
proof -
  obtain a st1 where t: "timeCheck E cfg st = (a, st1)"
    by (cases "timeCheck E cfg st")
  note r1 = runs_to_timeCheck [OF ns t]
  show ?thesis
  proof (cases a)
    case (Inl e)
    with eq t r1 show ?thesis by (auto simp: level_step_def runs_to_def)
  next
    case au: (Inr u)
    have ns1: "\<not> stopped st1" using r1 au by (auto dest: runs_to_not_stopped)
    obtain b st2 where e: "enumerateCost E cfg cost st1 = (b, st2)"
      by (cases "enumerateCost E cfg cost st1")
    note r2 = enumerateCost_runs_to(1) [OF ns1 e, THEN conjunct1]
    have ev2: "evolves E cfg st st2"
      using r1 r2 au by (auto simp: runs_to_def intro: evolves_trans)
    show ?thesis
    proof (cases b)
      case (Inl e')
      with eq t au e r2 ev2 show ?thesis by (auto simp: level_step_def runs_to_def)
    next
      case b: (Inr x)
      have ns2: "\<not> stopped st2" using r2 b by (auto dest: runs_to_not_stopped)
      from eq t au e b have res: "r = Inr ()"
        "st' = (if onProgress then st2\<lparr>clock_reads := Suc (clock_reads st2)\<rparr> else st2)"
        by (simp_all add: level_step_def)
      have "evolves E cfg st st'"
        using ev2 evolves_progress [OF ev2 ns2] by (simp add: res)
      then show ?thesis using ns2 by (simp add: runs_to_def res)
    qed
  qed
qed

lemma run_levels_runs_to:
  "\<not> stopped st \<Longrightarrow> run_levels E cfg onProgress k st = (r, st') \<Longrightarrow> runs_to E cfg st r st'"
proof (induction k arbitrary: r st')
  case 0
  then show ?case by (auto simp: runs_to_refl)
next
  case (Suc k)
  obtain a st1 where p: "run_levels E cfg onProgress k st = (a, st1)"
    by (cases "run_levels E cfg onProgress k st")
  note r1 = Suc.IH [OF Suc.prems(1) p]
  show ?case
  proof (cases a)
    case (Inl e)
    with Suc.prems p r1 show ?thesis by (auto simp: runs_to_def)
  next
    case (Inr u)
    with Suc.prems p have l: "level_step E cfg onProgress (Suc k) st1 = (r, st')" by simp
    have "\<not> stopped st1" using r1 Inr by (auto dest: runs_to_not_stopped)
    from level_step_runs_to [OF this l] r1 Inr show ?thesis
      by (auto intro: runs_to_trans)
  qed
qed

lemma init_not_stopped [simp]: "\<not> stopped init_state"
  by (simp add: init_state_def)

lemma evolves_final_state: "evolves E cfg init_state (final_state E cfg onProgress)"
  using run_levels_runs_to [OF init_not_stopped, of E cfg onProgress "nat (max_cost cfg)"]
  by (cases "run_levels E cfg onProgress (nat (max_cost cfg)) init_state")
     (simp add: final_state_def runs_to_def)

lemma evolves_same_topk_cases:
  assumes "evolves E cfg st st'"
    and base: "P st"
    and step: "\<And>s x t. P s \<Longrightarrow> P (snd (considerValue E cfg x t s))"
    and other: "\<And>s s'. P s \<Longrightarrow> same_topk s s' \<Longrightarrow> P s'"
  shows "P st'"
  using assms(1)
proof (induction rule: evolves.induct)
  case evolves_refl
  show ?case by (rule base)
next
  case (evolves_consider st1 x t)
  then show ?case by (auto intro: step)
next
  case (evolves_tick st1)
  then show ?case by (auto intro!: other [of st1] simp: same_topk_def)
next
  case (evolves_memo st1 m)
  then show ?case by (auto intro!: other [of st1] simp: same_topk_def)
next
  case (evolves_progress st1)
  then show ?case by (auto intro!: other [of st1] simp: same_topk_def)
qed

section \<open>Running the definitions\<close>

text \<open>The equations that unfold a run on a concrete input. The keys of the engine without
  rounding are not computed: they are compared through \<open>ex_key_eq_iff\<close> below.\<close>

lemma digits_distinct: "distinct ''0123456789''"
  by simp

lemma digit_inj: "a < 10 \<Longrightarrow> b < 10 \<Longrightarrow> ''0123456789'' ! a = ''0123456789'' ! b \<Longrightarrow> a = b"
  using digits_distinct by (simp add: nth_eq_iff_index_eq)

lemma decimal_nat_not_Nil: "decimal_nat n \<noteq> []"
  by (subst decimal_nat.simps) simp

lemma decimal_nat_digits: "set (decimal_nat n) \<subseteq> set ''0123456789''"
proof (induction n rule: decimal_nat.induct)
  case (1 n)
  have d: "''0123456789'' ! k \<in> set ''0123456789''" if "k < 10" for k
    using that by (intro nth_mem) simp
  show ?case
  proof (cases "n < 10")
    case True
    with d [of n] show ?thesis by (subst decimal_nat.simps) simp
  next
    case False
    with "1.IH" d [of "n mod 10"] show ?thesis by (subst decimal_nat.simps) simp
  qed
qed

lemma decimal_nat_inj: "decimal_nat m = decimal_nat n \<Longrightarrow> m = n"
proof (induction m arbitrary: n rule: decimal_nat.induct)
  case (1 m)
  show ?case
  proof (cases "m < 10")
    case m: True
    show ?thesis
    proof (cases "n < 10")
      case True
      with m "1.prems" show ?thesis
        by (subst (asm) (1 2) decimal_nat.simps) (simp add: digit_inj)
    next
      case False
      with m "1.prems" decimal_nat_not_Nil [of "n div 10"] show ?thesis
        by (subst (asm) (1 2) decimal_nat.simps) simp
    qed
  next
    case m: False
    show ?thesis
    proof (cases "n < 10")
      case True
      with m "1.prems" decimal_nat_not_Nil [of "m div 10"] show ?thesis
        by (subst (asm) (1 2) decimal_nat.simps) simp
    next
      case False
      with m "1.prems" have "decimal_nat (m div 10) = decimal_nat (n div 10)"
        and "''0123456789'' ! (m mod 10) = ''0123456789'' ! (n mod 10)"
        by (subst (asm) (1 2) decimal_nat.simps; simp)+
      with "1.IH" [OF m] have "m div 10 = n div 10" "m mod 10 = n mod 10"
        by (auto intro: digit_inj)
      then show ?thesis by (metis div_mult_mod_eq)
    qed
  qed
qed

lemma String_int_inj: "String_int a = String_int b \<Longrightarrow> a = b"
proof -
  have nodash: "hd (decimal_nat n) \<noteq> CHR ''-''" for n
  proof -
    have "hd (decimal_nat n) \<in> set ''0123456789''"
      using decimal_nat_digits [of n] decimal_nat_not_Nil [of n] hd_in_set by blast
    then show ?thesis by auto
  qed
  assume eq: "String_int a = String_int b"
  consider "a < 0" "b < 0" | "a < 0" "\<not> b < 0" | "\<not> a < 0" "b < 0" | "\<not> a < 0" "\<not> b < 0"
    by blast
  then show ?thesis
  proof cases
    case 1
    with eq have "nat (- a) = nat (- b)" by (auto simp: String_int_def dest: decimal_nat_inj)
    with 1 show ?thesis by simp
  next
    case 2
    with eq have e: "CHR ''-'' # decimal_nat (nat (- a)) = decimal_nat (nat b)"
      by (simp add: String_int_def)
    have "hd (decimal_nat (nat b)) = CHR ''-''"
      unfolding e [symmetric] by simp
    with nodash [of "nat b"] show ?thesis by simp
  next
    case 3
    with eq have e: "CHR ''-'' # decimal_nat (nat (- b)) = decimal_nat (nat a)"
      by (simp add: String_int_def)
    have "hd (decimal_nat (nat a)) = CHR ''-''"
      unfolding e [symmetric] by simp
    with nodash [of "nat a"] show ?thesis by simp
  next
    case 4
    with eq have "nat a = nat b" by (auto simp: String_int_def dest: decimal_nat_inj)
    with 4 show ?thesis by simp
  qed
qed

text \<open>The keys of the engine without rounding tell apart the multiples of \<open>2\<^sup>-\<^sup>8\<^sup>0\<close>.\<close>

lemma ex_key_eq_iff:
  assumes "r * 2 ^ 80 = of_int \<lfloor>r * 2 ^ 80\<rfloor>" "s * 2 ^ 80 = of_int \<lfloor>s * 2 ^ 80\<rfloor>"
  shows "ex_key r = ex_key s \<longleftrightarrow> r = s"
proof
  assume "ex_key r = ex_key s"
  then have "\<lfloor>r * 2 ^ 80\<rfloor> = \<lfloor>s * 2 ^ 80\<rfloor>"
    by (auto simp: ex_key_def dest: String_int_inj)
  with assms have "r * 2 ^ 80 = s * 2 ^ 80" by simp
  then show "r = s" by simp
qed simp

lemmas run_simps =
  level_step_def enumerateCost.simps binary_splits.simps timeCheck_def nowSec_def start_def
  considerValue_def keepSide_def epsilon_of_def key_repr_def heap_push_def heap_peek_def
  heap_replace_def siftUp.simps siftDown.simps cmp_err_def numbers_def number_atom_def
  constant_atom_def unaryFuncs_def binaryOps_def unary_item_def binary_items_def
  safeEvalBin_def safeEvalFunc_def base_config_def init_state_def lit_1e_12_def
  to_int32_def String_int_def decimal_nat.simps upto.simps ex_key_eq_iff Let_def

section \<open>The result set\<close>

text \<open>The five ways \<open>considerValue\<close> can go: the value is filtered out; it is counted
  and left out (its key is known, or the heap is full and its error is not smaller than
  the top's); it is pushed; the heap is full and empty at once (\<open>keep_top\<close> is not
  positive), which throws; it replaces the top.\<close>

lemma considerValue_cases:
  fixes E cfg x t st
  defines "new \<equiv> \<lparr>val = x, expr = t, err = Math_abs (f_sub E (target cfg) x)\<rparr>"
    and "st1 \<equiv> st\<lparr>exprCountTotal := Suc (exprCountTotal st)\<rparr>"
  obtains
    (skip) "considerValue E cfg x t st = (Inr (), st)"
  | (dup) "considerValue E cfg x t st = (Inr (), st1)"
  | (push) "isFiniteNumber x" "key_repr E x \<notin> savedValues st"
      "int (length (heap st)) < keep_top cfg"
      "considerValue E cfg x t st =
         (Inr (), st1\<lparr>heap := heap_push cmp_err new (heap st),
                      savedValues := insert (key_repr E x) (savedValues st)\<rparr>)"
  | (empty) "heap st = []" "\<not> int (length (heap st)) < keep_top cfg"
      "considerValue E cfg x t st = (Inl TypeError, st1)"
  | (repl) worst rest where "isFiniteNumber x" "key_repr E x \<notin> savedValues st"
      "\<not> int (length (heap st)) < keep_top cfg"
      "heap st = worst # rest" "num_lt (err new) (err worst)"
      "considerValue E cfg x t st =
         (Inr (), st1\<lparr>heap := siftDown cmp_err (new # rest) 0,
                      savedValues :=
                        insert (key_repr E x) (savedValues st - {key_repr E (val worst)})\<rparr>)"
proof (cases "isFiniteNumber x \<and>
    \<not> (keepSide cfg = ''greater'' \<and> \<not> num_gt x (f_add E (target cfg) (epsilon_of cfg))) \<and>
    \<not> (keepSide cfg = ''less'' \<and> \<not> num_lt x (f_sub E (target cfg) (epsilon_of cfg)))")
  case False
  then have "considerValue E cfg x t st = (Inr (), st)"
    unfolding considerValue_def by (simp only: if_True if_False simp_thms split: if_splits) auto
  then show ?thesis by (rule skip)
next
  case True
  then have f: "isFiniteNumber x"
    and core: "considerValue E cfg x t st =
      (if key_repr E x \<in> savedValues st then (Inr (), st1)
       else if int (length (heap st)) < keep_top cfg then
         (Inr (), st1\<lparr>heap := heap_push cmp_err new (heap st),
                      savedValues := insert (key_repr E x) (savedValues st)\<rparr>)
       else
         (case heap_peek (heap st) of
            None \<Rightarrow> (Inl TypeError, st1)
          | Some worst \<Rightarrow>
              if num_lt (err new) (err worst) then
                (case heap_replace cmp_err new (heap st) of
                   (None, h) \<Rightarrow> (Inl TypeError, st1\<lparr>heap := h\<rparr>)
                 | (Some popped, h) \<Rightarrow>
                     (Inr (), st1\<lparr>heap := h,
                                  savedValues :=
                                    insert (key_repr E x)
                                      (savedValues st - {key_repr E (val popped)})\<rparr>))
              else (Inr (), st1)))"
    unfolding considerValue_def Let_def new_def st1_def
    by (auto split: option.split prod.split)
  show ?thesis
  proof (cases "key_repr E x \<in> savedValues st")
    case True
    with core have "considerValue E cfg x t st = (Inr (), st1)" by simp
    then show ?thesis by (rule dup)
  next
    case fresh: False
    show ?thesis
    proof (cases "int (length (heap st)) < keep_top cfg")
      case True
      with core fresh have "considerValue E cfg x t st =
         (Inr (), st1\<lparr>heap := heap_push cmp_err new (heap st),
                      savedValues := insert (key_repr E x) (savedValues st)\<rparr>)"
        by simp
      with f fresh True show ?thesis by (rule push)
    next
      case full: False
      show ?thesis
      proof (cases "heap st")
        case Nil
        with core fresh full have "considerValue E cfg x t st = (Inl TypeError, st1)"
          by (simp add: heap_peek_def)
        with Nil full show ?thesis by (rule empty)
      next
        case (Cons worst rest)
        show ?thesis
        proof (cases "num_lt (err new) (err worst)")
          case False
          with core fresh full Cons have "considerValue E cfg x t st = (Inr (), st1)"
            by (simp add: heap_peek_def)
          then show ?thesis by (rule dup)
        next
          case True
          with core fresh full Cons have "considerValue E cfg x t st =
             (Inr (), st1\<lparr>heap := siftDown cmp_err (new # rest) 0,
                savedValues := insert (key_repr E x) (savedValues st - {key_repr E (val worst)})\<rparr>)"
            by (simp add: heap_peek_def heap_replace_def)
          with f fresh full Cons True show ?thesis by (rule repl)
        qed
      qed
    qed
  qed
qed


lemma distinct_map_mset:
  assumes "mset xs = mset ys"
  shows "distinct (map f xs) \<longleftrightarrow> distinct (map f ys)"
proof -
  from assms have "mset (map f xs) = mset (map f ys)" by simp
  then show ?thesis by (rule mset_eq_imp_distinct_iff)
qed

lemma image_set_mset:
  assumes "mset xs = mset ys"
  shows "f ` set xs = f ` set ys"
proof -
  from assms have "set xs = set ys" by (rule mset_eq_setD)
  then show ?thesis by simp
qed

lemma topk_inv_push:
  assumes inv: "topk_inv E cfg st"
    and fresh: "key_repr E (val new) \<notin> savedValues st"
    and room: "int (length (heap st)) < keep_top cfg"
  shows "topk_inv E cfg
      (st\<lparr>exprCountTotal := n, heap := heap_push cmp_err new (heap st),
           savedValues := insert (key_repr E (val new)) (savedValues st)\<rparr>)"
proof -
  have m: "mset (heap_push cmp_err new (heap st)) = mset (new # heap st)"
    by (simp add: mset_heap_push)
  have "length (heap_push cmp_err new (heap st)) = Suc (length (heap st))"
    using mset_eq_length [OF m] by simp
  moreover have "distinct (map (key_of E) (heap_push cmp_err new (heap st)))"
    using inv fresh by (simp add: distinct_map_mset [OF m] topk_inv_def key_of_def)
  moreover have "key_of E ` set (heap_push cmp_err new (heap st)) =
      insert (key_repr E (val new)) (savedValues st)"
    using inv by (simp add: image_set_mset [OF m] topk_inv_def key_of_def)
  ultimately show ?thesis
    using room by (simp add: topk_inv_def)
qed

lemma topk_inv_replace:
  assumes inv: "topk_inv E cfg st"
    and fresh: "key_repr E (val new) \<notin> savedValues st"
    and hs: "heap st = worst # rest"
  shows "topk_inv E cfg
      (st\<lparr>exprCountTotal := n, heap := siftDown cmp_err (new # rest) 0,
           savedValues :=
             insert (key_repr E (val new)) (savedValues st - {key_repr E (val worst)})\<rparr>)"
proof -
  have m: "mset (siftDown cmp_err (new # rest) 0) = mset (new # rest)"
    by (rule mset_siftDown)
  have "length (siftDown cmp_err (new # rest) 0) = length (heap st)"
    using mset_eq_length [OF m] hs by simp
  moreover have "distinct (map (key_of E) (siftDown cmp_err (new # rest) 0))"
    using inv fresh hs by (simp add: distinct_map_mset [OF m] topk_inv_def key_of_def)
  moreover have "key_of E ` set (siftDown cmp_err (new # rest) 0) =
      insert (key_repr E (val new)) (savedValues st - {key_repr E (val worst)})"
    using inv hs by (auto simp: image_set_mset [OF m] topk_inv_def key_of_def)
  ultimately show ?thesis
    using inv by (simp add: topk_inv_def)
qed

lemma topk_inv_considerValue:
  assumes inv: "topk_inv E cfg st"
  shows "topk_inv E cfg (snd (considerValue E cfg x t st))"
proof (cases rule: considerValue_cases [of E cfg x t st])
  case skip
  with inv show ?thesis by simp
next
  case dup
  with inv show ?thesis by (simp add: topk_inv_def)
next
  case push
  with topk_inv_push [OF inv, of "\<lparr>val = x, expr = t, err = Math_abs (f_sub E (target cfg) x)\<rparr>"]
  show ?thesis by simp
next
  case empty
  with inv show ?thesis by (simp add: topk_inv_def)
next
  case (repl worst rest)
  with topk_inv_replace [OF inv, of "\<lparr>val = x, expr = t, err = Math_abs (f_sub E (target cfg) x)\<rparr>"]
  show ?thesis by simp
qed

lemma topk_inv_same: "topk_inv E cfg s \<Longrightarrow> same_topk s s' \<Longrightarrow> topk_inv E cfg s'"
  by (simp add: topk_inv_def same_topk_def)

lemma topk_inv_init: "topk_inv E cfg init_state"
  by (simp add: topk_inv_def init_state_def)

lemma topk_inv_evolves:
  "evolves E cfg st st' \<Longrightarrow> topk_inv E cfg st \<Longrightarrow> topk_inv E cfg st'"
  by (erule evolves_same_topk_cases) (auto intro: topk_inv_considerValue topk_inv_same)

lemma topk_inv_result_set_ok:
  assumes "topk_inv E cfg st" "0 < keep_top cfg"
  shows "result_set_ok E cfg st"
proof -
  from assms have "distinct (map (key_of E) (heap st))"
    by (simp add: topk_inv_def)
  then have "card (set (map (key_of E) (heap st))) = length (map (key_of E) (heap st))"
    by (rule distinct_card)
  with assms have "card (savedValues st) = length (heap st)"
    by (simp add: topk_inv_def)
  with assms show ?thesis by (simp add: topk_inv_def result_set_ok_def)
qed

text \<open>
  C5. With a positive \<open>keep_top\<close>, every state of a run, and the state the run ends in,
  holds at most \<open>keep_top\<close> entries in the heap and in \<open>savedValues\<close>, and no two entries
  of the heap have the same key \<open>toPrecision(17)\<close>.
\<close>

theorem result_set_bounded_and_deduplicated:
  assumes "0 < keep_top cfg"
  shows "(\<forall>st. evolves E cfg init_state st \<longrightarrow> result_set_ok E cfg st) \<and>
         result_set_ok E cfg (final_state E cfg onProgress)"
proof -
  have "result_set_ok E cfg st" if "evolves E cfg init_state st" for st
    using topk_inv_evolves [OF that topk_inv_init] assms by (rule topk_inv_result_set_ok)
  then show ?thesis using evolves_final_state by blast
qed

text \<open>The run of \<open>dedup_config\<close>, level by level. The heap is full at the end of level 2.
  Level 3 offers four entries: \<open>-(-(1))\<close>, whose value 1 has the key of the entry \<open>1\<close>
  and is counted and left out; \<open>(1 + 1)\<close>, which replaces the worst entry \<open>-(1)\<close>; and
  \<open>(1 - 1)\<close> twice, whose error is not below the worst one retained. Six values have been
  counted at the end, and two are kept.\<close>

lemma dedup_run_1:
  "run_levels exact_engine dedup_config False (Suc 0) init_state =
     (Inr (),
      \<lparr>heap = [\<lparr>val = Fin 1, expr = ''1'', err = Fin 0\<rparr>],
       savedValues = {ex_key 1}, exprCountTotal = 1, stopped = False,
       memo = [(1, [\<lparr>val = Fin 1, expr = ''1''\<rparr>])], clock_reads = 4\<rparr>)"
  by (simp add: dedup_config_def run_simps)

lemma dedup_run_2:
  "run_levels exact_engine dedup_config False (Suc (Suc 0)) init_state =
     (Inr (),
      \<lparr>heap = [\<lparr>val = Fin (- 1), expr = ''-(1)'', err = Fin 2\<rparr>,
               \<lparr>val = Fin 1, expr = ''1'', err = Fin 0\<rparr>],
       savedValues = {ex_key (- 1), ex_key 1}, exprCountTotal = 2, stopped = False,
       memo = [(1, [\<lparr>val = Fin 1, expr = ''1''\<rparr>]), (2, [\<lparr>val = Fin (- 1), expr = ''-(1)''\<rparr>])],
       clock_reads = 7\<rparr>)"
  by (simp add: dedup_run_1) (simp add: dedup_config_def run_simps)

lemma dedup_run_3:
  "run_levels exact_engine dedup_config False (Suc (Suc (Suc 0))) init_state =
     (Inr (),
      \<lparr>heap = [\<lparr>val = Fin 2, expr = ''(1 + 1)'', err = Fin 1\<rparr>,
               \<lparr>val = Fin 1, expr = ''1'', err = Fin 0\<rparr>],
       savedValues = {ex_key 2, ex_key 1}, exprCountTotal = 6, stopped = False,
       memo = [(1, [\<lparr>val = Fin 1, expr = ''1''\<rparr>]), (2, [\<lparr>val = Fin (- 1), expr = ''-(1)''\<rparr>]),
               (3, [\<lparr>val = Fin 1, expr = ''-(-(1))''\<rparr>,
                    \<lparr>val = Fin 2, expr = ''(1 + 1)''\<rparr>,
                    \<lparr>val = Fin 0, expr = ''(1 - 1)''\<rparr>,
                    \<lparr>val = Fin 0, expr = ''(1 - 1)''\<rparr>])],
       clock_reads = 12\<rparr>)"
  by (simp add: dedup_run_2) (simp add: dedup_config_def run_simps)

theorem result_set_bounded_and_deduplicated_witness:
  "0 < keep_top dedup_config \<and>
   run_levels exact_engine dedup_config False 2 init_state =
     (Inr (),
      \<lparr>heap = [\<lparr>val = Fin (- 1), expr = ''-(1)'', err = Fin 2\<rparr>,
               \<lparr>val = Fin 1, expr = ''1'', err = Fin 0\<rparr>],
       savedValues = {ex_key (- 1), ex_key 1}, exprCountTotal = 2, stopped = False,
       memo = [(1, [\<lparr>val = Fin 1, expr = ''1''\<rparr>]), (2, [\<lparr>val = Fin (- 1), expr = ''-(1)''\<rparr>])],
       clock_reads = 7\<rparr>) \<and>
   int (length (heap (snd (run_levels exact_engine dedup_config False 2 init_state)))) =
     keep_top dedup_config \<and>
   key_repr exact_engine (Fin 1) \<in>
     savedValues (snd (run_levels exact_engine dedup_config False 2 init_state)) \<and>
   considerValue exact_engine dedup_config (Fin 1) ''-(-(1))''
     (snd (run_levels exact_engine dedup_config False 2 init_state)) =
     (Inr (), (snd (run_levels exact_engine dedup_config False 2 init_state))
                \<lparr>exprCountTotal := 3\<rparr>) \<and>
   evolves exact_engine dedup_config init_state
     (snd (run_levels exact_engine dedup_config False 2 init_state)) \<and>
   result_set_ok exact_engine dedup_config
     (snd (run_levels exact_engine dedup_config False 2 init_state)) \<and>
   final_state exact_engine dedup_config False =
     \<lparr>heap = [\<lparr>val = Fin 2, expr = ''(1 + 1)'', err = Fin 1\<rparr>,
              \<lparr>val = Fin 1, expr = ''1'', err = Fin 0\<rparr>],
      savedValues = {ex_key 2, ex_key 1}, exprCountTotal = 6, stopped = False,
      memo = [(1, [\<lparr>val = Fin 1, expr = ''1''\<rparr>]), (2, [\<lparr>val = Fin (- 1), expr = ''-(1)''\<rparr>]),
              (3, [\<lparr>val = Fin 1, expr = ''-(-(1))''\<rparr>,
                   \<lparr>val = Fin 2, expr = ''(1 + 1)''\<rparr>,
                   \<lparr>val = Fin 0, expr = ''(1 - 1)''\<rparr>,
                   \<lparr>val = Fin 0, expr = ''(1 - 1)''\<rparr>])],
      clock_reads = 12\<rparr> \<and>
   result_set_ok exact_engine dedup_config (final_state exact_engine dedup_config False)"
proof -
  have 2: "(2::nat) = Suc (Suc 0)" by simp
  have n: "nat (max_cost dedup_config) = Suc (Suc (Suc 0))"
    by (simp add: dedup_config_def)
  have k: "0 < keep_top dedup_config" "keep_top dedup_config = 2"
    by (simp_all add: dedup_config_def)
  have ev: "evolves exact_engine dedup_config init_state
      (snd (run_levels exact_engine dedup_config False 2 init_state))"
    using run_levels_runs_to [OF init_not_stopped, of exact_engine dedup_config False 2]
    by (cases "run_levels exact_engine dedup_config False 2 init_state")
       (simp add: runs_to_def)
  from result_set_bounded_and_deduplicated [OF k(1), of exact_engine False] ev
  have ok: "result_set_ok exact_engine dedup_config
      (snd (run_levels exact_engine dedup_config False 2 init_state))"
    "result_set_ok exact_engine dedup_config (final_state exact_engine dedup_config False)"
    by blast+
  have key: "key_repr exact_engine (Fin 1) \<in>
      savedValues (snd (run_levels exact_engine dedup_config False 2 init_state))"
    unfolding 2 dedup_run_2 by (simp add: key_repr_def)
  have dup: "considerValue exact_engine dedup_config (Fin 1) ''-(-(1))''
      (snd (run_levels exact_engine dedup_config False 2 init_state)) =
     (Inr (), (snd (run_levels exact_engine dedup_config False 2 init_state))
                \<lparr>exprCountTotal := 3\<rparr>)"
    unfolding 2 dedup_run_2 by (simp add: dedup_config_def run_simps)
  have fin: "final_state exact_engine dedup_config False =
     \<lparr>heap = [\<lparr>val = Fin 2, expr = ''(1 + 1)'', err = Fin 1\<rparr>,
              \<lparr>val = Fin 1, expr = ''1'', err = Fin 0\<rparr>],
      savedValues = {ex_key 2, ex_key 1}, exprCountTotal = 6, stopped = False,
      memo = [(1, [\<lparr>val = Fin 1, expr = ''1''\<rparr>]), (2, [\<lparr>val = Fin (- 1), expr = ''-(1)''\<rparr>]),
              (3, [\<lparr>val = Fin 1, expr = ''-(-(1))''\<rparr>,
                   \<lparr>val = Fin 2, expr = ''(1 + 1)''\<rparr>,
                   \<lparr>val = Fin 0, expr = ''(1 - 1)''\<rparr>,
                   \<lparr>val = Fin 0, expr = ''(1 - 1)''\<rparr>])],
      clock_reads = 12\<rparr>"
    unfolding final_state_def n dedup_run_3 by simp
  have run2: "run_levels exact_engine dedup_config False 2 init_state =
     (Inr (),
      \<lparr>heap = [\<lparr>val = Fin (- 1), expr = ''-(1)'', err = Fin 2\<rparr>,
               \<lparr>val = Fin 1, expr = ''1'', err = Fin 0\<rparr>],
       savedValues = {ex_key (- 1), ex_key 1}, exprCountTotal = 2, stopped = False,
       memo = [(1, [\<lparr>val = Fin 1, expr = ''1''\<rparr>]), (2, [\<lparr>val = Fin (- 1), expr = ''-(1)''\<rparr>])],
       clock_reads = 7\<rparr>)"
    unfolding 2 dedup_run_2 by simp
  have len: "int (length (heap (snd (run_levels exact_engine dedup_config False 2 init_state)))) =
     keep_top dedup_config"
    unfolding run2 k(2) by simp
  from k(1) run2 len key dup ev ok(1) fin ok(2) show ?thesis by blast
qed

section \<open>The time budget\<close>

lemma mset_insert_cmp: "mset (insert_cmp cmp x ys) = add_mset x (mset ys)"
  by (induction ys) auto

lemma mset_sort_cmp: "mset (sort_cmp cmp xs) = mset xs"
  by (induction xs) (auto simp: sort_cmp_def mset_insert_cmp)

lemma mset_read_out: "mset (read_out E h) = mset h"
  by (simp add: read_out_def mset_sort_cmp)



lemma unbudgeted_fields [simp]:
  "N (unbudgeted cfg) = N cfg"
  "target (unbudgeted cfg) = target cfg"
  "constants (unbudgeted cfg) = constants cfg"
  "use_sin (unbudgeted cfg) = use_sin cfg"
  "use_cos (unbudgeted cfg) = use_cos cfg"
  "use_tan (unbudgeted cfg) = use_tan cfg"
  "use_exp (unbudgeted cfg) = use_exp cfg"
  "use_ln (unbudgeted cfg) = use_ln cfg"
  "use_sqrt (unbudgeted cfg) = use_sqrt cfg"
  "use_neg (unbudgeted cfg) = use_neg cfg"
  "use_pow (unbudgeted cfg) = use_pow cfg"
  "keep_top (unbudgeted cfg) = keep_top cfg"
  "max_cost (unbudgeted cfg) = max_cost cfg"
  "max_seconds (unbudgeted cfg) = PInf"
  "keepSide (unbudgeted cfg) = keepSide cfg"
  "epsilon_of (unbudgeted cfg) = epsilon_of cfg"
  by (simp_all add: unbudgeted_def keepSide_def epsilon_of_def)

lemma considerValue_unbudgeted [simp]:
  "considerValue E (unbudgeted cfg) x t st = considerValue E cfg x t st"
  by (simp only: considerValue_def unbudgeted_fields)


lemma feed_unbudgeted [simp]: "feed E (unbudgeted cfg) xs res st = feed E cfg xs res st"
  by (induction xs arbitrary: res st) (simp_all split: prod.split sum.split)

lemma feed_clock_reads [simp]: "clock_reads (snd (feed E cfg xs res st)) = clock_reads st"
proof (induction xs arbitrary: res st)
  case Nil
  then show ?case by simp
next
  case (Cons x xs)
  obtain a st1 where c: "considerValue E cfg (val x) (expr x) st = (a, st1)"
    by (cases "considerValue E cfg (val x) (expr x) st")
  with considerValue_frame(3) [of E cfg "val x" "expr x" st]
  have "clock_reads st1 = clock_reads st" by simp
  with c Cons.IH [of "res @ [x]" st1] show ?case by (cases a) simp_all
qed
















lemma ticking_engine_simps [simp]:
  "f_sub ticking_engine = f_sub exact_engine"
  "f_add ticking_engine = f_add exact_engine"
  "toPrecision17 ticking_engine = ex_key"
  "nowSec ticking_engine n = Fin (of_nat n)"
  by (simp_all add: ticking_engine_def nowSec_def exact_engine_def ex_div_def)


lemma num_gt_PInf [simp]: "\<not> num_gt a PInf"
  by (simp add: num_gt_def num_lt_def split: number.splits)





section \<open>The first level\<close>

lemma timeCheck_within_budget:
  "within_budget E cfg \<Longrightarrow>
   timeCheck E cfg st = (Inr (), st\<lparr>clock_reads := Suc (clock_reads st)\<rparr>)"
  by (simp add: within_budget_def timeCheck_def Let_def)

lemma considerValue_no_throw:
  assumes "0 < keep_top cfg"
  shows "fst (considerValue E cfg x t st) = Inr ()"
  using assms by (cases rule: considerValue_cases [of E cfg x t st]) auto

lemma feed_no_throw:
  "0 < keep_top cfg \<Longrightarrow> fst (feed E cfg xs res st) = Inr (res @ xs)"
proof (induction xs arbitrary: res st)
  case Nil
  then show ?case by simp
next
  case (Cons x xs)
  obtain a st1 where c: "considerValue E cfg (val x) (expr x) st = (a, st1)"
    by (cases "considerValue E cfg (val x) (expr x) st")
  with considerValue_no_throw [OF Cons.prems, of E "val x" "expr x" st] have "a = Inr ()"
    by simp
  with c Cons.IH [OF Cons.prems, of "res @ [x]" st1] show ?case by simp
qed

lemma atoms_loop_no_throw:
  "0 < keep_top cfg \<Longrightarrow> within_budget E cfg \<Longrightarrow>
   fst (atoms_loop E cfg xs res st) = Inr (res @ xs)"
proof (induction xs arbitrary: res st)
  case Nil
  then show ?case by simp
next
  case (Cons x xs)
  let ?st1 = "st\<lparr>clock_reads := Suc (clock_reads st)\<rparr>"
  obtain b st2 where f: "feed E cfg [x] res ?st1 = (b, st2)"
    by (cases "feed E cfg [x] res ?st1")
  with feed_no_throw [OF Cons.prems(1), of E "[x]" res ?st1] have "b = Inr (res @ [x])"
    by simp
  with f Cons.IH [OF Cons.prems, of "res @ [x]" st2] Cons.prems(2) show ?case
    by (simp add: timeCheck_within_budget)
qed

lemma to_int32_id: "- (2 ^ 31) \<le> n \<Longrightarrow> n < 2 ^ 31 \<Longrightarrow> to_int32 n = n"
  by (simp add: to_int32_def)

lemma number_atoms_small:
  assumes "N cfg < 2 ^ 31"
  shows "map number_atom (numbers cfg) =
         map (\<lambda>n. \<lparr>val = Fin (of_int n), expr = String_int n\<rparr>) [1..N cfg]"
  using assms by (auto simp: numbers_def number_atom_def to_int32_id)

lemma enumerateCost_1:
  assumes K: "0 < keep_top cfg" and B: "within_budget E cfg" and small: "N cfg < 2 ^ 31"
    and ns: "\<not> stopped st" and none: "map_of (memo st) 1 = None"
    and eq: "enumerateCost E cfg 1 st = (r, st')"
  shows "r = Inr (level1_atoms cfg) \<and> map_of (memo st') 1 = Some (level1_atoms cfg)"
proof -
  let ?st1 = "st\<lparr>clock_reads := Suc (clock_reads st)\<rparr>"
  obtain a st2 where l1: "atoms_loop E cfg (map number_atom (numbers cfg)) [] ?st1 = (a, st2)"
    by (cases "atoms_loop E cfg (map number_atom (numbers cfg)) [] ?st1")
  with atoms_loop_no_throw [OF K B, of "map number_atom (numbers cfg)" "[]" ?st1]
  have a: "a = Inr (map number_atom (numbers cfg))" by simp
  obtain b st3 where l2: "atoms_loop E cfg (map constant_atom (constants cfg))
      (map number_atom (numbers cfg)) st2 = (b, st3)"
    by (cases "atoms_loop E cfg (map constant_atom (constants cfg))
      (map number_atom (numbers cfg)) st2")
  with atoms_loop_no_throw [OF K B, of "map constant_atom (constants cfg)"
      "map number_atom (numbers cfg)" st2]
  have b: "b = Inr (map number_atom (numbers cfg) @ map constant_atom (constants cfg))"
    by simp
  have atoms: "map number_atom (numbers cfg) @ map constant_atom (constants cfg) =
      level1_atoms cfg"
    by (simp add: level1_atoms_def number_atoms_small [OF small] constant_atom_def)
  from eq ns none l1 a l2 b have "r = Inr (level1_atoms cfg)"
    "st' = st3\<lparr>memo := AList.update 1 (level1_atoms cfg) (memo st3)\<rparr>"
    by (subst (asm) enumerateCost.simps; simp add: timeCheck_within_budget [OF B] atoms)+
  then show ?thesis by (simp add: update_conv')
qed

lemma level_step_memo_frame:
  assumes ns: "\<not> stopped st" and eq: "level_step E cfg onProgress cost st = (r, st')"
  shows "memo_frame cost (memo st) (memo st')"
proof -
  obtain a st1 where t: "timeCheck E cfg st = (a, st1)"
    by (cases "timeCheck E cfg st")
  note r1 = runs_to_timeCheck [OF ns t] and m1 = memo_timeCheck [OF t]
  show ?thesis
  proof (cases a)
    case (Inl e)
    with eq t m1 show ?thesis by (auto simp: level_step_def)
  next
    case au: (Inr u)
    have ns1: "\<not> stopped st1" using r1 au by (auto dest: runs_to_not_stopped)
    obtain b st2 where e: "enumerateCost E cfg cost st1 = (b, st2)"
      by (cases "enumerateCost E cfg cost st1")
    from enumerateCost_runs_to(1) [OF ns1 e] m1
    have "memo_frame cost (memo st) (memo st2)" by simp
    moreover from eq t au e have "memo st' = memo st2"
      by (cases b) (auto simp: level_step_def)
    ultimately show ?thesis by simp
  qed
qed

lemma run_levels_memo_frame:
  "\<not> stopped st \<Longrightarrow> run_levels E cfg onProgress k st = (r, st') \<Longrightarrow>
   memo_frame k (memo st) (memo st')"
proof (induction k arbitrary: r st')
  case 0
  then show ?case by simp
next
  case (Suc k)
  obtain a st1 where p: "run_levels E cfg onProgress k st = (a, st1)"
    by (cases "run_levels E cfg onProgress k st")
  note f1 = Suc.IH [OF Suc.prems(1) p] and r1 = run_levels_runs_to [OF Suc.prems(1) p]
  show ?case
  proof (cases a)
    case (Inl e)
    with Suc.prems p f1 show ?thesis by (auto intro: memo_frame_trans [OF _ memo_frame_refl])
  next
    case (Inr u)
    with Suc.prems p have l: "level_step E cfg onProgress (Suc k) st1 = (r, st')" by simp
    have "\<not> stopped st1" using r1 Inr by (auto dest: runs_to_not_stopped)
    from level_step_memo_frame [OF this l] f1 show ?thesis
      by (auto intro: memo_frame_trans)
  qed
qed

text \<open>
  C9. With a positive \<open>keep_top\<close>, for fewer than \<open>2\<^sup>3\<^sup>1\<close> integers (\<open>String(n|0)\<close> is the
  decimal literal of \<open>n\<close> below that), and as long as the clock stays within the budget:
  at the end of level 1 and of every later level, whatever that level's outcome, the memo
  entry of cost 1 is the list of the integers 1 to \<open>N\<close>, each with its decimal literal and
  its value, followed by the named constants, each with its name and its value.
\<close>

theorem memo_level1_is_atoms:
  assumes K: "0 < keep_top cfg" and B: "within_budget E cfg" and small: "N cfg < 2 ^ 31"
    and k: "1 \<le> k" and run: "run_levels E cfg onProgress k init_state = (r, st')"
  shows "map_of (memo st') 1 = Some (level1_atoms cfg)"
  using k run
proof (induction k arbitrary: r st')
  case 0
  then show ?case by simp
next
  case (Suc k)
  show ?case
  proof (cases "k = 0")
    case True
    let ?st0 = "init_state\<lparr>clock_reads := Suc (clock_reads init_state)\<rparr>"
    obtain b st2 where e: "enumerateCost E cfg 1 ?st0 = (b, st2)"
      by (cases "enumerateCost E cfg 1 ?st0")
    have "\<not> stopped ?st0" "map_of (memo ?st0) 1 = None"
      by (simp_all add: init_state_def)
    from enumerateCost_1 [OF K B small this e]
    have b: "b = Inr (level1_atoms cfg)" "map_of (memo st2) 1 = Some (level1_atoms cfg)"
      by simp_all
    from Suc.prems(2) True have "level_step E cfg onProgress 1 init_state = (r, st')"
      by simp
    with e b show ?thesis
      by (auto simp: level_step_def timeCheck_within_budget [OF B] split: if_splits)
  next
    case False
    obtain a st1 where p: "run_levels E cfg onProgress k init_state = (a, st1)"
      by (cases "run_levels E cfg onProgress k init_state")
    from False have "1 \<le> k" by simp
    note m1 = Suc.IH [OF this p] and r1 = run_levels_runs_to [OF init_not_stopped p]
    show ?thesis
    proof (cases a)
      case (Inl e)
      with Suc.prems(2) p m1 show ?thesis by simp
    next
      case (Inr u)
      with Suc.prems(2) p have l: "level_step E cfg onProgress (Suc k) st1 = (r, st')"
        by simp
      have "\<not> stopped st1" using r1 Inr by (auto dest: runs_to_not_stopped)
      from level_step_memo_frame [OF this l] m1 show ?thesis
        by (simp add: memo_frame_def)
    qed
  qed
qed

lemma within_budget_exact: "within_budget exact_engine base_config"
  by (simp add: within_budget_def nowSec_def start_def base_config_def)

theorem memo_level1_is_atoms_witness:
  "map_of (memo (final_state exact_engine atoms_config False)) 1 =
     Some [\<lparr>val = Fin 1, expr = ''1''\<rparr>, \<lparr>val = Fin 2, expr = ''2''\<rparr>,
           \<lparr>val = Fin (5 / 2), expr = ''c''\<rparr>]"
proof -
  have K: "0 < keep_top atoms_config" by (simp add: atoms_config_def base_config_def)
  have B: "within_budget exact_engine atoms_config"
    using within_budget_exact by (simp add: within_budget_def atoms_config_def)
  have small: "N atoms_config < 2 ^ 31" by (simp add: atoms_config_def)
  have k: "1 \<le> nat (max_cost atoms_config)" by (simp add: atoms_config_def base_config_def)
  have atoms: "level1_atoms atoms_config =
      [\<lparr>val = Fin 1, expr = ''1''\<rparr>, \<lparr>val = Fin 2, expr = ''2''\<rparr>,
       \<lparr>val = Fin (5 / 2), expr = ''c''\<rparr>]"
    by (simp add: level1_atoms_def atoms_config_def upto.simps String_int_def decimal_nat.simps)
  obtain r st' where
    run: "run_levels exact_engine atoms_config False (nat (max_cost atoms_config)) init_state = (r, st')"
    by (cases "run_levels exact_engine atoms_config False (nat (max_cost atoms_config)) init_state")
  from memo_level1_is_atoms [OF K B small k run] run show ?thesis
    by (simp add: final_state_def atoms)
qed

section \<open>The binary step\<close>

lemma canon_le_iff:
  assumes "isFiniteNumber (val L)" "isFiniteNumber (val R)"
  shows "canon_le L R \<longleftrightarrow>
         \<not> (num_gt (val L) (val R) \<or> (num_eq (val L) (val R) \<and> expr R < expr L))"
  using assms by (auto simp: canon_le_def isFiniteNumber_iff)

lemma canon_le_antisym:
  assumes "isFiniteNumber (val L)" "isFiniteNumber (val R)" "canon_le L R" "canon_le R L"
  shows "val L = val R \<and> expr L = expr R"
  using assms by (auto simp: canon_le_def isFiniteNumber_iff)

lemma binary_items_commutative:
  assumes "isFiniteNumber (val L)" "isFiniteNumber (val R)" "opname = ''+'' \<or> opname = ''*''"
  shows "binary_items E cfg L R (opname, op) =
         (if \<not> identity_pruned E cfg opname R \<and> canon_le L R
          then [combination opname op L R] else [])"
  using assms(3) canon_le_iff [OF assms(1,2)]
  by (auto simp: binary_items_def identity_pruned_def combination_def Let_def)

lemma binary_items_noncommutative:
  assumes "opname = ''-'' \<or> opname = ''/'' \<or> opname = ''^''"
  shows "binary_items E cfg L R (opname, op) =
         (if identity_pruned E cfg opname R then []
          else [combination opname op L R, combination opname op R L])"
  using assms
  by (auto simp: binary_items_def identity_pruned_def combination_def Let_def)

text \<open>
  C8. For finite operands: a commutative operator (\<open>+\<close>, \<open>*\<close>) produces \<open>L op R\<close>, and
  nothing else, exactly when the pair is not pruned as an identity and \<open>(L.value, L.text)\<close>
  is lexicographically at most \<open>(R.value, R.text)\<close>; if it produces an entry for \<open>L\<close>, \<open>R\<close>
  and one for \<open>R\<close>, \<open>L\<close>, the two operands have the same value and the same text; the
  other operators (\<open>-\<close>, \<open>/\<close>, \<open>^\<close>) produce both \<open>L op R\<close> and \<open>R op L\<close> for every pair
  that is not pruned as an identity.
\<close>

theorem commutative_operators_canonical_order:
  assumes "isFiniteNumber (val L)" "isFiniteNumber (val R)"
  shows "(opname = ''+'' \<or> opname = ''*'' \<longrightarrow>
            binary_items E cfg L R (opname, op) =
              (if \<not> identity_pruned E cfg opname R \<and> canon_le L R
               then [combination opname op L R] else []) \<and>
            (binary_items E cfg L R (opname, op) \<noteq> [] \<and>
             binary_items E cfg R L (opname, op) \<noteq> [] \<longrightarrow>
               val L = val R \<and> expr L = expr R)) \<and>
         (opname = ''-'' \<or> opname = ''/'' \<or> opname = ''^'' \<longrightarrow>
            \<not> identity_pruned E cfg opname R \<longrightarrow>
            binary_items E cfg L R (opname, op) =
              [combination opname op L R, combination opname op R L])"
proof (intro conjI impI)
  assume c: "opname = ''+'' \<or> opname = ''*''"
  show "binary_items E cfg L R (opname, op) =
      (if \<not> identity_pruned E cfg opname R \<and> canon_le L R
       then [combination opname op L R] else [])"
    by (rule binary_items_commutative [OF assms c])
  assume "binary_items E cfg L R (opname, op) \<noteq> [] \<and> binary_items E cfg R L (opname, op) \<noteq> []"
  then have "canon_le L R" "canon_le R L"
    by (auto simp: binary_items_commutative [OF assms c]
        binary_items_commutative [OF assms(2,1) c] split: if_splits)
  with assms show "val L = val R" "expr L = expr R"
    by (auto dest: canon_le_antisym)
next
  assume "opname = ''-'' \<or> opname = ''/'' \<or> opname = ''^''"
    and "\<not> identity_pruned E cfg opname R"
  then show "binary_items E cfg L R (opname, op) =
      [combination opname op L R, combination opname op R L]"
    by (simp add: binary_items_noncommutative)
qed

theorem commutative_operators_canonical_order_witness:
  "binary_items exact_engine base_config \<lparr>val = Fin 1, expr = ''1''\<rparr> \<lparr>val = Fin 2, expr = ''2''\<rparr>
     (''+'', f_add exact_engine) = [\<lparr>val = Fin 3, expr = ''(1 + 2)''\<rparr>] \<and>
   binary_items exact_engine base_config \<lparr>val = Fin 2, expr = ''2''\<rparr> \<lparr>val = Fin 1, expr = ''1''\<rparr>
     (''+'', f_add exact_engine) = [] \<and>
   binary_items exact_engine base_config \<lparr>val = Fin 1, expr = ''1''\<rparr> \<lparr>val = Fin 2, expr = ''2''\<rparr>
     (''-'', f_sub exact_engine) =
     [\<lparr>val = Fin (- 1), expr = ''(1 - 2)''\<rparr>, \<lparr>val = Fin 1, expr = ''(2 - 1)''\<rparr>]"
proof -
  let ?one = "\<lparr>val = Fin 1, expr = ''1''\<rparr>" and ?two = "\<lparr>val = Fin 2, expr = ''2''\<rparr>"
  have f: "isFiniteNumber (val ?one)" "isFiniteNumber (val ?two)" by simp_all
  have p: "\<not> identity_pruned exact_engine base_config ''+'' ?two"
    "\<not> identity_pruned exact_engine base_config ''+'' ?one"
    "\<not> identity_pruned exact_engine base_config ''-'' ?two"
    by (simp_all add: identity_pruned_def epsilon_of_def base_config_def lit_1e_12_def)
  have c: "canon_le ?one ?two" "\<not> canon_le ?two ?one"
    by (simp_all add: canon_le_def)
  from commutative_operators_canonical_order [OF f, of "''+''" exact_engine base_config "f_add exact_engine"]
    commutative_operators_canonical_order [OF f(2,1), of "''+''" exact_engine base_config "f_add exact_engine"]
    commutative_operators_canonical_order [OF f, of "''-''" exact_engine base_config "f_sub exact_engine"]
    p c
  show ?thesis
    by (simp add: combination_def safeEvalBin_def)
qed

section \<open>Identity elimination\<close>

text \<open>The run of \<open>identity_config\<close>, level by level.\<close>

lemma identity_run_1:
  "run_levels exact_engine identity_config False (Suc 0) init_state =
     (Inr (),
      \<lparr>heap = [\<lparr>val = Fin 1, expr = ''1'', err = Fin (1 / 2 ^ 40)\<rparr>],
       savedValues = {ex_key 1}, exprCountTotal = 2, stopped = False,
       memo = [(1, [\<lparr>val = Fin 1, expr = ''1''\<rparr>, \<lparr>val = Fin (1 / 2 ^ 40), expr = ''z''\<rparr>])],
       clock_reads = 5\<rparr>)"
  by (simp add: identity_config_def run_simps)

lemma identity_run_2:
  "run_levels exact_engine identity_config False (Suc (Suc 0)) init_state =
     (Inr (),
      \<lparr>heap = [\<lparr>val = Fin 1, expr = ''1'', err = Fin (1 / 2 ^ 40)\<rparr>],
       savedValues = {ex_key 1}, exprCountTotal = 2, stopped = False,
       memo = [(1, [\<lparr>val = Fin 1, expr = ''1''\<rparr>, \<lparr>val = Fin (1 / 2 ^ 40), expr = ''z''\<rparr>]),
               (2, [])],
       clock_reads = 9\<rparr>)"
  by (simp add: identity_run_1) (simp add: identity_config_def run_simps)

lemma identity_run_3:
  "run_levels exact_engine identity_config False (Suc (Suc (Suc 0))) init_state =
     (Inr (),
      \<lparr>heap = [\<lparr>val = Fin (1 - 1 / 2 ^ 40), expr = ''(1 - z)'', err = Fin 0\<rparr>],
       savedValues = {ex_key (1 - 1 / 2 ^ 40)}, exprCountTotal = 13, stopped = False,
       memo = [(1, [\<lparr>val = Fin 1, expr = ''1''\<rparr>, \<lparr>val = Fin (1 / 2 ^ 40), expr = ''z''\<rparr>]),
               (2, []),
               (3, [\<lparr>val = Fin 2, expr = ''(1 + 1)''\<rparr>,
                    \<lparr>val = Fin 0, expr = ''(1 - 1)''\<rparr>,
                    \<lparr>val = Fin 0, expr = ''(1 - 1)''\<rparr>,
                    \<lparr>val = Fin (2 ^ 40), expr = ''(1 / z)''\<rparr>,
                    \<lparr>val = Fin (1 / 2 ^ 40), expr = ''(z / 1)''\<rparr>,
                    \<lparr>val = Fin (1 + 1 / 2 ^ 40), expr = ''(z + 1)''\<rparr>,
                    \<lparr>val = Fin (1 / 2 ^ 40 - 1), expr = ''(z - 1)''\<rparr>,
                    \<lparr>val = Fin (1 - 1 / 2 ^ 40), expr = ''(1 - z)''\<rparr>,
                    \<lparr>val = Fin (1 / 2 ^ 80), expr = ''(z * z)''\<rparr>,
                    \<lparr>val = Fin 1, expr = ''(z / z)''\<rparr>,
                    \<lparr>val = Fin 1, expr = ''(z / z)''\<rparr>])],
       clock_reads = 17\<rparr>)"
  by (simp add: identity_run_2) (simp add: identity_config_def run_simps)

text \<open>
  C1. The claim: no retained expression subtracts a near-zero operand or divides by a
  near-one operand, in either operand position. The code tests only the value of \<open>R\<close>, and
  for \<open>-\<close> and \<open>/\<close> it also produces \<open>R op L\<close>, in which the second operand is \<open>L\<close>,
  untested. With the integer 1 and the constant \<open>z = 2\<^sup>-\<^sup>4\<^sup>0\<close>, below the default \<open>epsilon\<close>,
  the pair \<open>L = z\<close>, \<open>R = 1\<close> yields \<open>(1 - z)\<close>, and this is the expression the run returns
  for the target \<open>1 - 2\<^sup>-\<^sup>4\<^sup>0\<close>.
\<close>

theorem identity_elimination_misses_second_order:
  "results (generateEnumerations exact_engine identity_config False) =
     [\<lparr>val = Fin (1 - 1 / 2 ^ 40), expr = ''(1 - z)'', err = Fin 0\<rparr>] \<and>
   constants identity_config = [(''z'', Fin (1 / 2 ^ 40))] \<and>
   num_le (Math_abs (Fin (1 / 2 ^ 40))) (epsilon_of identity_config) \<and>
   binary_items exact_engine identity_config
     \<lparr>val = Fin (1 / 2 ^ 40), expr = ''z''\<rparr> \<lparr>val = Fin 1, expr = ''1''\<rparr>
     (''-'', f_sub exact_engine) =
     [\<lparr>val = Fin (1 / 2 ^ 40 - 1), expr = ''(z - 1)''\<rparr>,
      \<lparr>val = Fin (1 - 1 / 2 ^ 40), expr = ''(1 - z)''\<rparr>]"
proof -
  have n: "nat (max_cost identity_config) = Suc (Suc (Suc 0))"
    by (simp add: identity_config_def)
  have 1: "results (generateEnumerations exact_engine identity_config False) =
     [\<lparr>val = Fin (1 - 1 / 2 ^ 40), expr = ''(1 - z)'', err = Fin 0\<rparr>]"
    unfolding generateEnumerations_def final_state_def n identity_run_3
    by (simp add: read_out_def sort_cmp_def)
  have 2: "constants identity_config = [(''z'', Fin (1 / 2 ^ 40))]"
    by (simp add: identity_config_def)
  have 3: "num_le (Math_abs (Fin (1 / 2 ^ 40))) (epsilon_of identity_config)"
    by (simp add: identity_config_def epsilon_of_def base_config_def lit_1e_12_def)
  have 4: "binary_items exact_engine identity_config
     \<lparr>val = Fin (1 / 2 ^ 40), expr = ''z''\<rparr> \<lparr>val = Fin 1, expr = ''1''\<rparr>
     (''-'', f_sub exact_engine) =
     [\<lparr>val = Fin (1 / 2 ^ 40 - 1), expr = ''(z - 1)''\<rparr>,
      \<lparr>val = Fin (1 - 1 / 2 ^ 40), expr = ''(1 - z)''\<rparr>]"
    by (simp add: binary_items_def identity_config_def epsilon_of_def base_config_def
        lit_1e_12_def safeEvalBin_def Let_def)
  from 1 2 3 4 show ?thesis by blast
qed

section \<open>The worst error retained\<close>

lemma num_inf_simps [simp]:
  "num_lt NInf (Fin x)" "num_lt (Fin x) PInf" "num_lt NInf PInf"
  "\<not> num_lt a NInf" "\<not> num_lt PInf a"
  "num_le NInf (Fin x)" "num_le (Fin x) PInf" "num_le NInf PInf"
  "\<not> num_le (Fin x) NInf" "\<not> num_le PInf (Fin x)" "\<not> num_le PInf NInf"
  "num_le NInf NInf" "num_le PInf PInf"
  by (auto simp: num_lt_def num_le_def num_eq_def split: number.splits)

lemma fill_run_1:
  "run_levels exact_engine fill_config False (Suc 0) init_state =
     (Inr (),
      \<lparr>heap = [\<lparr>val = Fin 1, expr = ''1'', err = Fin 0\<rparr>],
       savedValues = {ex_key 1}, exprCountTotal = 1, stopped = False,
       memo = [(1, [\<lparr>val = Fin 1, expr = ''1''\<rparr>])], clock_reads = 4\<rparr>)"
  by (simp add: fill_config_def run_simps)

lemma fill_run_2:
  "run_levels exact_engine fill_config False (Suc (Suc 0)) init_state =
     (Inr (),
      \<lparr>heap = [\<lparr>val = Fin (- 1), expr = ''-(1)'', err = Fin 2\<rparr>,
               \<lparr>val = Fin 1, expr = ''1'', err = Fin 0\<rparr>],
       savedValues = {ex_key (- 1), ex_key 1}, exprCountTotal = 2, stopped = False,
       memo = [(1, [\<lparr>val = Fin 1, expr = ''1''\<rparr>]), (2, [\<lparr>val = Fin (- 1), expr = ''-(1)''\<rparr>])],
       clock_reads = 7\<rparr>)"
  by (simp add: fill_run_1) (simp add: fill_config_def run_simps)

text \<open>
  C3, as stated, fails while the heap fills up. With the integer 1, negation, target 1 and
  room for two candidates, level 1 ends with the entry \<open>1\<close> of error 0 alone, and level 2
  adds \<open>-(1)\<close> of error 2: the worst error retained has grown from 0 to 2.
\<close>

theorem worst_error_grows_while_filling:
  "run_levels exact_engine fill_config False 1 init_state =
     (Inr (),
      \<lparr>heap = [\<lparr>val = Fin 1, expr = ''1'', err = Fin 0\<rparr>],
       savedValues = {ex_key 1}, exprCountTotal = 1, stopped = False,
       memo = [(1, [\<lparr>val = Fin 1, expr = ''1''\<rparr>])], clock_reads = 4\<rparr>) \<and>
   run_levels exact_engine fill_config False 2 init_state =
     (Inr (),
      \<lparr>heap = [\<lparr>val = Fin (- 1), expr = ''-(1)'', err = Fin 2\<rparr>,
               \<lparr>val = Fin 1, expr = ''1'', err = Fin 0\<rparr>],
       savedValues = {ex_key (- 1), ex_key 1}, exprCountTotal = 2, stopped = False,
       memo = [(1, [\<lparr>val = Fin 1, expr = ''1''\<rparr>]), (2, [\<lparr>val = Fin (- 1), expr = ''-(1)''\<rparr>])],
       clock_reads = 7\<rparr>) \<and>
   \<not> num_le
       (worst_error (heap (snd (run_levels exact_engine fill_config False 2 init_state))))
       (worst_error (heap (snd (run_levels exact_engine fill_config False 1 init_state))))"
proof -
  have 1: "(1::nat) = Suc 0" and 2: "(2::nat) = Suc (Suc 0)" by simp_all
  show ?thesis
    unfolding 1 2 fill_run_1 fill_run_2
    by (simp add: worst_error_def)
qed


lemma worst_error_Cons:
  "worst_error (c # h) = (if num_lt (worst_error h) (err c) then err c else worst_error h)"
  by (simp add: worst_error_def)

lemma worst_error_Nil [simp]: "worst_error [] = NInf"
  by (simp add: worst_error_def)

lemma worst_error_not_NaN: "\<forall>c \<in> set h. err c \<noteq> NaN \<Longrightarrow> worst_error h \<noteq> NaN"
  by (induction h) (auto simp: worst_error_Cons)

lemma worst_error_ge:
  "\<forall>c \<in> set h. err c \<noteq> NaN \<Longrightarrow> c \<in> set h \<Longrightarrow> num_le (err c) (worst_error h)"
proof (induction h)
  case Nil
  then show ?case by simp
next
  case (Cons d h)
  have nn: "worst_error h \<noteq> NaN" "err d \<noteq> NaN"
    using Cons.prems(1) worst_error_not_NaN [of h] by auto
  show ?case
  proof (cases "c = d")
    case True
    with nn show ?thesis
      using num_le_total [of "err d" "worst_error h"]
      by (auto simp: worst_error_Cons num_le_refl)
  next
    case False
    with Cons have le: "num_le (err c) (worst_error h)" by simp
    show ?thesis
    proof (cases "num_lt (worst_error h) (err d)")
      case True
      with le show ?thesis
        by (auto simp: worst_error_Cons intro: num_le_trans num_lt_imp_le)
    next
      case False
      with le show ?thesis by (simp add: worst_error_Cons)
    qed
  qed
qed

lemma worst_error_mem:
  "h \<noteq> [] \<Longrightarrow> \<forall>c \<in> set h. err c \<noteq> NaN \<Longrightarrow> \<exists>c \<in> set h. worst_error h = err c"
proof (induction h)
  case Nil
  then show ?case by simp
next
  case (Cons d h)
  show ?case
  proof (cases "h = []")
    case True
    with Cons.prems show ?thesis
      by (cases "err d") (auto simp: worst_error_Cons)
  next
    case False
    with Cons show ?thesis by (auto simp: worst_error_Cons)
  qed
qed

lemma worst_error_dominated:
  assumes dom: "dominated h h'" and nn: "\<forall>c \<in> set h. err c \<noteq> NaN"
    and nn': "\<forall>c \<in> set h'. err c \<noteq> NaN" and ne: "h' \<noteq> []"
  shows "num_le (worst_error h') (worst_error h)"
proof -
  from worst_error_mem [OF ne nn'] obtain c' where c': "c' \<in> set h'" "worst_error h' = err c'"
    by blast
  from dom c'(1) obtain c where c: "c \<in> set h" "c' = c \<or> num_lt (err c') (err c)"
    by (auto simp: dominated_def)
  from nn c(1) have "err c \<noteq> NaN" by blast
  with c(2) have "num_le (err c') (err c)"
    by (auto simp: num_le_refl num_lt_imp_le)
  with worst_error_ge [OF nn c(1)] c'(2) show ?thesis
    by (auto intro: num_le_trans)
qed

lemma dominated_refl: "dominated h h"
  by (auto simp: dominated_def)

lemma errors_ok_considerValue:
  assumes "errors_ok E cfg st"
  shows "errors_ok E cfg (snd (considerValue E cfg x t st))"
proof (cases rule: considerValue_cases [of E cfg x t st])
  case skip
  with assms show ?thesis by simp
next
  case dup
  with assms show ?thesis by (simp add: errors_ok_def)
next
  case push
  have "set (heap_push cmp_err \<lparr>val = x, expr = t, err = Math_abs (f_sub E (target cfg) x)\<rparr> (heap st)) =
      insert \<lparr>val = x, expr = t, err = Math_abs (f_sub E (target cfg) x)\<rparr> (set (heap st))"
    using mset_eq_setD [of "heap_push cmp_err \<lparr>val = x, expr = t, err = Math_abs (f_sub E (target cfg) x)\<rparr> (heap st)"
        "\<lparr>val = x, expr = t, err = Math_abs (f_sub E (target cfg) x)\<rparr> # heap st"]
    by (simp add: mset_heap_push)
  with push assms show ?thesis by (simp add: errors_ok_def)
next
  case empty
  with assms show ?thesis by (simp add: errors_ok_def)
next
  case (repl worst rest)
  have "set (siftDown cmp_err (\<lparr>val = x, expr = t, err = Math_abs (f_sub E (target cfg) x)\<rparr> # rest) 0) =
      insert \<lparr>val = x, expr = t, err = Math_abs (f_sub E (target cfg) x)\<rparr> (set rest)"
    using mset_eq_setD [OF mset_siftDown, of cmp_err _ 0] by simp
  with repl assms show ?thesis by (simp add: errors_ok_def)
qed

lemma errors_ok_evolves:
  assumes "evolves E cfg st st'" "errors_ok E cfg st"
  shows "errors_ok E cfg st'"
  using assms(1)
proof (rule evolves_same_topk_cases)
  show "errors_ok E cfg st" by fact
next
  fix s :: state and x t
  assume "errors_ok E cfg s"
  then show "errors_ok E cfg (snd (considerValue E cfg x t s))"
    by (rule errors_ok_considerValue)
next
  fix s s' :: state
  assume "errors_ok E cfg s" "same_topk s s'"
  then show "errors_ok E cfg s'" by (simp add: errors_ok_def same_topk_def)
qed

lemma errors_ok_init: "errors_ok E cfg init_state"
  by (simp add: errors_ok_def init_state_def)

lemma errors_not_NaN:
  assumes "errors_ok E cfg st" "\<forall>x. f_sub E (target cfg) (Fin x) \<noteq> NaN"
  shows "\<forall>c \<in> set (heap st). err c \<noteq> NaN"
proof
  fix c assume "c \<in> set (heap st)"
  with assms(1) obtain x where "val c = Fin x" "err c = Math_abs (f_sub E (target cfg) (Fin x))"
    by (auto simp: errors_ok_def isFiniteNumber_iff)
  with assms(2) [rule_format, of x] show "err c \<noteq> NaN"
    by (cases "f_sub E (target cfg) (Fin x)") (auto simp: Math_abs_def)
qed

lemma full_dominated_considerValue:
  assumes full: "\<not> int (length h0) < keep_top cfg"
    and P: "length (heap st) = length h0 \<and> dominated h0 (heap st)"
  shows "length (heap (snd (considerValue E cfg x t st))) = length h0 \<and>
         dominated h0 (heap (snd (considerValue E cfg x t st)))"
proof (cases rule: considerValue_cases [of E cfg x t st])
  case skip
  with P show ?thesis by simp
next
  case dup
  with P show ?thesis by simp
next
  case push
  with full P show ?thesis by simp
next
  case empty
  with P show ?thesis by (simp add: dominated_def)
next
  case (repl worst rest)
  let ?new = "\<lparr>val = x, expr = t, err = Math_abs (f_sub E (target cfg) x)\<rparr>"
  have m: "mset (siftDown cmp_err (?new # rest) 0) = mset (?new # rest)"
    by (rule mset_siftDown)
  have len: "length (siftDown cmp_err (?new # rest) 0) = length (heap st)"
    using mset_eq_length [OF m] repl(4) by simp
  have "dominated h0 (siftDown cmp_err (?new # rest) 0)"
    unfolding dominated_def
  proof
    fix c' assume "c' \<in> set (siftDown cmp_err (?new # rest) 0)"
    then have "c' = ?new \<or> c' \<in> set rest"
      using mset_eq_setD [OF m] by auto
    then show "\<exists>c \<in> set h0. c' = c \<or> num_lt (err c') (err c)"
    proof
      assume c': "c' = ?new"
      from P repl(4) obtain c where c: "c \<in> set h0" "worst = c \<or> num_lt (err worst) (err c)"
        by (auto simp: dominated_def)
      with repl(5) c' have "num_lt (err c') (err c)"
        by (auto intro: num_lt_trans)
      with c(1) show ?thesis by blast
    next
      assume "c' \<in> set rest"
      with P repl(4) show ?thesis by (auto simp: dominated_def)
    qed
  qed
  with len P repl(6) show ?thesis by simp
qed

lemma full_dominated_evolves:
  assumes "evolves E cfg st st'" "\<not> int (length (heap st)) < keep_top cfg"
  shows "length (heap st') = length (heap st) \<and> dominated (heap st) (heap st')"
  using assms(1)
proof (rule evolves_same_topk_cases)
  show "length (heap st) = length (heap st) \<and> dominated (heap st) (heap st)"
    by (simp add: dominated_refl)
next
  fix s :: state and x t
  assume "length (heap s) = length (heap st) \<and> dominated (heap st) (heap s)"
  then show "length (heap (snd (considerValue E cfg x t s))) = length (heap st) \<and>
      dominated (heap st) (heap (snd (considerValue E cfg x t s)))"
    by (rule full_dominated_considerValue [OF assms(2)])
next
  fix s s' :: state
  assume "length (heap s) = length (heap st) \<and> dominated (heap st) (heap s)" "same_topk s s'"
  then show "length (heap s') = length (heap st) \<and> dominated (heap st) (heap s')"
    by (simp add: same_topk_def)
qed

text \<open>
  C3, as the code has it. Once the heap is full at the end of a level, the worst error
  retained at the end of the next level is at most the worst error retained at the end of
  that level. (\<open>target - value\<close> is never NaN for finite operands in IEEE-754 arithmetic:
  the hypothesis on the engine.)
\<close>

theorem worst_error_non_increasing_once_full:
  assumes nn: "\<forall>x. f_sub E (target cfg) (Fin x) \<noteq> NaN"
    and k: "run_levels E cfg onProgress k init_state = (Inr (), st)"
    and k1: "run_levels E cfg onProgress (Suc k) init_state = (r, st')"
    and full: "\<not> int (length (heap st)) < keep_top cfg"
  shows "num_le (worst_error (heap st')) (worst_error (heap st))"
proof -
  note r0 = run_levels_runs_to [OF init_not_stopped k]
  then have ns: "\<not> stopped st" by (auto dest: runs_to_not_stopped)
  from k k1 have "level_step E cfg onProgress (Suc k) st = (r, st')" by simp
  from level_step_runs_to [OF ns this] have ev: "evolves E cfg st st'"
    by (simp add: runs_to_def)
  from full_dominated_evolves [OF ev full]
  have len: "length (heap st') = length (heap st)" and dom: "dominated (heap st) (heap st')"
    by simp_all
  have ok: "errors_ok E cfg st"
    using r0 errors_ok_evolves [OF _ errors_ok_init] by (simp add: runs_to_def)
  then have nn0: "\<forall>c \<in> set (heap st). err c \<noteq> NaN"
    using nn by (rule errors_not_NaN)
  have nn1: "\<forall>c \<in> set (heap st'). err c \<noteq> NaN"
    using errors_ok_evolves [OF ev ok] nn by (rule errors_not_NaN)
  show ?thesis
  proof (cases "heap st' = []")
    case True
    with len show ?thesis by (simp add: worst_error_def)
  next
    case False
    with dom nn0 nn1 show ?thesis by (intro worst_error_dominated)
  qed
qed

theorem worst_error_non_increasing_once_full_witness:
  "num_le (worst_error [\<lparr>val = Fin (1 - 1 / 2 ^ 40), expr = ''(1 - z)'', err = Fin 0\<rparr>])
          (worst_error [\<lparr>val = Fin 1, expr = ''1'', err = Fin (1 / 2 ^ 40)\<rparr>])"
proof -
  have nn: "\<forall>x. f_sub exact_engine (target identity_config) (Fin x) \<noteq> NaN"
    by (simp add: identity_config_def)
  from worst_error_non_increasing_once_full [OF nn identity_run_2 identity_run_3]
  show ?thesis by (simp add: identity_config_def)
qed

section \<open>The order of the candidates\<close>

lemma tie_run:
  "run_levels exact_engine tie_config False (Suc 0) init_state =
     (Inr (),
      \<lparr>heap = [\<lparr>val = Fin 1, expr = ''1'', err = Fin (3 / 2)\<rparr>,
               \<lparr>val = Fin 4, expr = ''4'', err = Fin (3 / 2)\<rparr>,
               \<lparr>val = Fin 3, expr = ''3'', err = Fin (1 / 2)\<rparr>,
               \<lparr>val = Fin 2, expr = ''2'', err = Fin (1 / 2)\<rparr>],
       savedValues = {ex_key 4, ex_key 3, ex_key 2, ex_key 1},
       exprCountTotal = 4, stopped = False,
       memo = [(1, [\<lparr>val = Fin 1, expr = ''1''\<rparr>, \<lparr>val = Fin 2, expr = ''2''\<rparr>,
                    \<lparr>val = Fin 3, expr = ''3''\<rparr>, \<lparr>val = Fin 4, expr = ''4''\<rparr>])],
       clock_reads = 7\<rparr>)"
  by (simp add: tie_config_def run_simps)

lemma tie_results:
  "results (generateEnumerations exact_engine tie_config False) =
     [\<lparr>val = Fin 3, expr = ''3'', err = Fin (1 / 2)\<rparr>,
      \<lparr>val = Fin 2, expr = ''2'', err = Fin (1 / 2)\<rparr>,
      \<lparr>val = Fin 1, expr = ''1'', err = Fin (3 / 2)\<rparr>,
      \<lparr>val = Fin 4, expr = ''4'', err = Fin (3 / 2)\<rparr>]"
proof -
  have n: "nat (max_cost tie_config) = Suc 0"
    by (simp add: tie_config_def base_config_def)
  show ?thesis
    unfolding generateEnumerations_def final_state_def n tie_run
    by (simp add: read_out_def sort_cmp_def)
qed

text \<open>
  C4, as stated, fails on ties. For the target 2.5 and the integers 1 to 4 the list
  returned is \<open>3\<close>, \<open>2\<close>, \<open>1\<close>, \<open>4\<close>: \<open>3\<close> and \<open>2\<close> have the same error 0.5, and \<open>3\<close>
  comes first.
\<close>

theorem ties_not_broken_by_text:
  "results (generateEnumerations exact_engine tie_config False) =
     [\<lparr>val = Fin 3, expr = ''3'', err = Fin (1 / 2)\<rparr>,
      \<lparr>val = Fin 2, expr = ''2'', err = Fin (1 / 2)\<rparr>,
      \<lparr>val = Fin 1, expr = ''1'', err = Fin (3 / 2)\<rparr>,
      \<lparr>val = Fin 4, expr = ''4'', err = Fin (3 / 2)\<rparr>] \<and>
   \<not> sorted_by_error_then_text (results (generateEnumerations exact_engine tie_config False))"
  unfolding tie_results by (simp add: sorted_by_error_then_text_def)

lemma set_insert_cmp: "set (insert_cmp cmp x ys) = insert x (set ys)"
  by (induction ys) auto

lemma set_sort_cmp: "set (sort_cmp cmp xs) = set xs"
  by (induction xs) (auto simp: sort_cmp_def set_insert_cmp)

lemma sorted_insert_cmp:
  assumes gt: "\<And>a b. a \<in> insert x (set ys) \<Longrightarrow> b \<in> insert x (set ys) \<Longrightarrow>
      num_gt (cmp a b) (Fin 0) \<longleftrightarrow> num_lt (err b) (err a)"
    and nn: "\<forall>c \<in> insert x (set ys). err c \<noteq> NaN"
    and sorted: "sorted_by_error ys"
  shows "sorted_by_error (insert_cmp cmp x ys)"
  using assms
proof (induction ys)
  case Nil
  then show ?case by (simp add: sorted_by_error_def)
next
  case (Cons y ys)
  have s: "sorted_by_error ys" and yz: "\<forall>z \<in> set ys. num_le (err y) (err z)"
    using Cons.prems(3) by (simp_all add: sorted_by_error_def)
  show ?case
  proof (cases "num_gt (cmp x y) (Fin 0)")
    case True
    then have lt: "num_lt (err y) (err x)" using Cons.prems(1) [of x y] by simp
    have "sorted_by_error (insert_cmp cmp x ys)"
      using Cons.prems(1,2) s by (intro Cons.IH) auto
    with True lt yz show ?thesis
      by (auto simp: sorted_by_error_def set_insert_cmp num_lt_imp_le)
  next
    case False
    then have "\<not> num_lt (err y) (err x)" using Cons.prems(1) [of x y] by simp
    with Cons.prems(2) have xy: "num_le (err x) (err y)"
      using num_le_total [of "err x" "err y"] by auto
    with yz have "\<forall>z \<in> set ys. num_le (err x) (err z)"
      by (auto intro: num_le_trans)
    with False xy Cons.prems(3) show ?thesis
      by (simp add: sorted_by_error_def)
  qed
qed

lemma sorted_sort_cmp:
  assumes gt: "\<And>a b. a \<in> set xs \<Longrightarrow> b \<in> set xs \<Longrightarrow>
      num_gt (cmp a b) (Fin 0) \<longleftrightarrow> num_lt (err b) (err a)"
    and nn: "\<forall>c \<in> set xs. err c \<noteq> NaN"
  shows "sorted_by_error (sort_cmp cmp xs)"
  using assms
proof (induction xs)
  case Nil
  then show ?case by (simp add: sort_cmp_def sorted_by_error_def)
next
  case (Cons x xs)
  have "sorted_by_error (sort_cmp cmp xs)"
    using Cons.prems by (intro Cons.IH) auto
  then have "sorted_by_error (insert_cmp cmp x (sort_cmp cmp xs))"
    using Cons.prems by (intro sorted_insert_cmp) (auto simp: set_sort_cmp)
  then show ?case by (simp add: sort_cmp_def)
qed

lemma filter_insert_cmp:
  assumes "\<And>y. y \<in> set ys \<Longrightarrow> num_gt (cmp x y) (Fin 0) \<Longrightarrow> err x \<noteq> err y"
  shows "filter (\<lambda>c. err c = e) (insert_cmp cmp x ys) =
         (if err x = e then x # filter (\<lambda>c. err c = e) ys else filter (\<lambda>c. err c = e) ys)"
  using assms by (induction ys) auto

lemma filter_sort_cmp:
  assumes "\<And>x y. x \<in> set xs \<Longrightarrow> y \<in> set xs \<Longrightarrow> num_gt (cmp x y) (Fin 0) \<Longrightarrow> err x \<noteq> err y"
  shows "filter (\<lambda>c. err c = e) (sort_cmp cmp xs) = filter (\<lambda>c. err c = e) xs"
  using assms
proof (induction xs)
  case Nil
  then show ?case by (simp add: sort_cmp_def)
next
  case (Cons x xs)
  have "filter (\<lambda>c. err c = e) (sort_cmp cmp xs) = filter (\<lambda>c. err c = e) xs"
    using Cons.prems by (intro Cons.IH) auto
  moreover have "filter (\<lambda>c. err c = e) (insert_cmp cmp x (sort_cmp cmp xs)) =
      (if err x = e then x # filter (\<lambda>c. err c = e) (sort_cmp cmp xs)
       else filter (\<lambda>c. err c = e) (sort_cmp cmp xs))"
    using Cons.prems by (intro filter_insert_cmp) (auto simp: set_sort_cmp)
  ultimately show ?case by (simp add: sort_cmp_def)
qed

text \<open>
  C4, as the code has it. The list returned holds the heap's entries, sorted ascending by
  error; the entries of one error keep the order they have in the heap's array. (In
  IEEE-754 arithmetic \<open>a - b > 0\<close> exactly when \<open>a > b\<close>, and \<open>target - value\<close> is never NaN for
  finite operands: the hypotheses on the engine.)
\<close>

theorem results_sorted_by_error_stable:
  assumes sign: "\<forall>a b. a \<noteq> NaN \<longrightarrow> b \<noteq> NaN \<longrightarrow>
      (num_gt (f_sub E a b) (Fin 0) \<longleftrightarrow> num_gt a b)"
    and nn: "\<forall>x. f_sub E (target cfg) (Fin x) \<noteq> NaN"
  shows "sorted_by_error (results (generateEnumerations E cfg onProgress)) \<and>
         mset (results (generateEnumerations E cfg onProgress)) =
           mset (heap (final_state E cfg onProgress)) \<and>
         (\<forall>e. filter (\<lambda>c. err c = e) (results (generateEnumerations E cfg onProgress)) =
              filter (\<lambda>c. err c = e) (heap (final_state E cfg onProgress)))"
proof -
  let ?h = "heap (final_state E cfg onProgress)"
  have "errors_ok E cfg (final_state E cfg onProgress)"
    using errors_ok_evolves [OF evolves_final_state errors_ok_init] .
  then have nn': "\<forall>c \<in> set ?h. err c \<noteq> NaN"
    using nn by (rule errors_not_NaN)
  have gt: "num_gt (f_sub E (err a) (err b)) (Fin 0) \<longleftrightarrow> num_lt (err b) (err a)"
    if "a \<in> set ?h" "b \<in> set ?h" for a b
    using that nn' sign by (simp add: num_gt_def)
  have r: "results (generateEnumerations E cfg onProgress) = read_out E ?h"
    by (simp add: generateEnumerations_def Let_def)
  have 1: "sorted_by_error (read_out E ?h)"
    unfolding read_out_def using gt nn' by (intro sorted_sort_cmp) auto
  have 2: "filter (\<lambda>c. err c = e) (read_out E ?h) = filter (\<lambda>c. err c = e) ?h" for e
    unfolding read_out_def
  proof (rule filter_sort_cmp)
    fix x y assume "x \<in> set ?h" "y \<in> set ?h" "num_gt (f_sub E (err x) (err y)) (Fin 0)"
    then have "num_lt (err y) (err x)" by (simp add: gt)
    then show "err x \<noteq> err y" by auto
  qed
  from 1 2 show ?thesis by (simp add: r mset_read_out)
qed

lemma exact_sub_sign:
  "a \<noteq> NaN \<Longrightarrow> b \<noteq> NaN \<Longrightarrow> num_gt (f_sub exact_engine a b) (Fin 0) \<longleftrightarrow> num_gt a b"
  by (cases a; cases b)
     (simp_all add: exact_engine_def ex_sub_def ex_add_def num_neg_def num_gt_def num_lt_def)

theorem results_sorted_by_error_stable_witness:
  "sorted_by_error (results (generateEnumerations exact_engine tie_config False)) \<and>
   filter (\<lambda>c. err c = Fin (1 / 2)) (results (generateEnumerations exact_engine tie_config False)) =
     filter (\<lambda>c. err c = Fin (1 / 2)) (heap (final_state exact_engine tie_config False))"
proof -
  have sign: "\<forall>a b. a \<noteq> NaN \<longrightarrow> b \<noteq> NaN \<longrightarrow>
      (num_gt (f_sub exact_engine a b) (Fin 0) \<longleftrightarrow> num_gt a b)"
    using exact_sub_sign by blast
  have nn: "\<forall>x. f_sub exact_engine (target tie_config) (Fin x) \<noteq> NaN"
    by (simp add: tie_config_def)
  from results_sorted_by_error_stable [OF sign nn, of False] show ?thesis by blast
qed

end
